theory Spec2Isabelle
  imports Complex_Main "HOL-Library.Word"
begin

section \<open>Python values used by the transport code\<close>

text \<open>
  A Python \<^verbatim>\<open>bytes\<close> object is a list of octets; Python integers are unbounded
  and are modelled by \<^typ>\<open>int\<close>.
\<close>

type_synonym byte = "8 word"

type_synonym bytes = "byte list"

text \<open>
  The two slice forms used by \<^verbatim>\<open>make_commands\<close>. A negative bound counts from
  the end of the sequence, and a bound beyond either end is cut to that end; slicing
  never raises.
\<close>

definition slice_to :: "'a list \<Rightarrow> int \<Rightarrow> 'a list" where
  \<comment> \<open>\<^verbatim>\<open>xs[:n]\<close>\<close>
  "slice_to xs n =
     (if 0 \<le> n then take (nat n) xs else take (length xs - nat (- n)) xs)"

definition slice_from :: "'a list \<Rightarrow> int \<Rightarrow> 'a list" where
  \<comment> \<open>\<^verbatim>\<open>xs[n:]\<close>\<close>
  "slice_from xs n =
     (if 0 \<le> n then drop (nat n) xs else drop (length xs - nat (- n)) xs)"

definition zero_bytes :: "int \<Rightarrow> bytes" where
  \<comment> \<open>\<^verbatim>\<open>b'\x00' * n\<close>: empty when \<open>n\<close> is not positive\<close>
  "zero_bytes n = replicate (nat n) 0"

section \<open>CorsairCommand\<close>

record CorsairCommand =
  opcode :: int
  unknown1 :: int
  unknown2 :: int
  is_end :: bool
  part_num :: int
  datalen :: int
  data :: bytes

definition HEADER_SIZE :: int where
  "HEADER_SIZE = 8"

datatype py_error = ValueError | OverflowError

definition byte_of_int :: "int \<Rightarrow> py_error + byte" where
  \<comment> \<open>one element of \<^verbatim>\<open>bytes([...])\<close>: a ValueError outside \<open>range(256)\<close>\<close>
  "byte_of_int n = (if 0 \<le> n \<and> n < 256 then Inr (word_of_int n) else Inl ValueError)"

definition int_to_bytes2_le :: "int \<Rightarrow> py_error + bytes" where
  \<comment> \<open>\<^verbatim>\<open>n.to_bytes(2, byteorder='little')\<close>: an OverflowError when \<open>n\<close> is
      negative or does not fit in two bytes\<close>
  "int_to_bytes2_le n =
     (if 0 \<le> n \<and> n < 65536
      then Inr [word_of_int (n mod 256), word_of_int (n div 256)]
      else Inl OverflowError)"

definition to_bytes :: "CorsairCommand \<Rightarrow> py_error + bytes" where
  "to_bytes c =
     (case byte_of_int (opcode c) of Inl e \<Rightarrow> Inl e | Inr b0 \<Rightarrow>
      case byte_of_int (unknown1 c) of Inl e \<Rightarrow> Inl e | Inr b1 \<Rightarrow>
      case byte_of_int (unknown2 c) of Inl e \<Rightarrow> Inl e | Inr b2 \<Rightarrow>
      case byte_of_int (if is_end c then 1 else 0) of Inl e \<Rightarrow> Inl e | Inr b3 \<Rightarrow>
      case int_to_bytes2_le (part_num c) of Inl e \<Rightarrow> Inl e | Inr pn \<Rightarrow>
      case int_to_bytes2_le (datalen c) of Inl e \<Rightarrow> Inl e | Inr dl \<Rightarrow>
        Inr ([b0, b1, b2, b3] @ pn @ dl @ data c))"

section \<open>UpdateDeviceThread.make\_commands\<close>

text \<open>
  One pass through the body of the \<^verbatim>\<open>while data:\<close> loop, entered with a non-empty
  \<open>data\<close>: the command that is yielded and the data left for the next pass.
\<close>

definition make_commands_body ::
    "int \<Rightarrow> int \<Rightarrow> bytes \<Rightarrow> int \<Rightarrow> CorsairCommand \<times> bytes" where
  "make_commands_body opc real_max_len dat pn =
     (let padded_data =
            (if int (length dat) < real_max_len
             then dat @ zero_bytes (real_max_len - int (length dat))
             else slice_to dat real_max_len);
          dl = min real_max_len (int (length dat));
          rest = slice_from dat real_max_len
      in (\<lparr>opcode = opc, unknown1 = 0x05, unknown2 = 0x40, is_end = (rest = []),
           part_num = pn, datalen = dl, data = padded_data\<rparr>, rest))"

text \<open>
  The generator run to exhaustion, as \<^verbatim>\<open>write_command\<close> does with its \<open>for\<close> loop.
  The loop need not end, so the list of all commands is optional: \<open>None\<close> is a
  generator that never stops.
\<close>

partial_function (option) make_commands_loop ::
    "int \<Rightarrow> int \<Rightarrow> bytes \<Rightarrow> int \<Rightarrow> CorsairCommand list option" where
  "make_commands_loop opc real_max_len dat pn =
     (if dat = [] then Some []
      else case make_commands_body opc real_max_len dat pn of
        (c, rest) \<Rightarrow>
          Option.bind (make_commands_loop opc real_max_len rest (pn + 1))
            (\<lambda>cs. Some (c # cs)))"

declare make_commands_loop.simps [code]

definition make_commands :: "bytes \<Rightarrow> int \<Rightarrow> int \<Rightarrow> CorsairCommand list option" where
  "make_commands dat opc max_len = make_commands_loop opc (max_len - HEADER_SIZE) dat 0"

text \<open>
  The generator resumed at most \<open>n\<close> times: the first \<open>n\<close> commands it yields (fewer
  when it stops earlier). This view is defined for every packet size.
\<close>

fun make_commands_upto ::
    "nat \<Rightarrow> int \<Rightarrow> int \<Rightarrow> bytes \<Rightarrow> int \<Rightarrow> CorsairCommand list" where
  "make_commands_upto 0 opc real_max_len dat pn = []"
| "make_commands_upto (Suc n) opc real_max_len dat pn =
     (if dat = [] then []
      else case make_commands_body opc real_max_len dat pn of
        (c, rest) \<Rightarrow> c # make_commands_upto n opc real_max_len rest (pn + 1))"

definition make_commands_first :: "nat \<Rightarrow> bytes \<Rightarrow> int \<Rightarrow> int \<Rightarrow> CorsairCommand list" where
  "make_commands_first n dat opc max_len =
     make_commands_upto n opc (max_len - HEADER_SIZE) dat 0"

text \<open>
  What the receiver does with the packets of one message: order them by \<open>part_num\<close>,
  cut each data block to its \<open>datalen\<close> and join the pieces.
\<close>

definition reassemble :: "CorsairCommand list \<Rightarrow> bytes" where
  "reassemble cs =
     concat (map (\<lambda>c. slice_to (data c) (datalen c)) (sort_key part_num cs))"

text \<open>
  The length fields of a sequence of packets fit a packet size when no packet carries
  more than the packet size less the header, and every packet but the last carries
  exactly that much.
\<close>

definition datalen_ok :: "int \<Rightarrow> CorsairCommand list \<Rightarrow> bool" where
  "datalen_ok max_len cs \<longleftrightarrow>
     list_all (\<lambda>c. datalen c \<le> max_len - HEADER_SIZE) cs \<and>
     list_all (\<lambda>c. datalen c = max_len - HEADER_SIZE) (butlast cs)"

text \<open>
  The shape of a packet that \<^verbatim>\<open>make_commands\<close> builds for an opcode and a positive
  payload capacity: the two constant header fields, a data block of exactly the
  capacity, and zero bytes behind the first \<open>datalen\<close> bytes of it.
\<close>

definition well_formed :: "int \<Rightarrow> int \<Rightarrow> CorsairCommand \<Rightarrow> bool" where
  "well_formed opc r c \<longleftrightarrow>
     opcode c = opc \<and> unknown1 c = 5 \<and> unknown2 c = 64 \<and>
     int (length (data c)) = r \<and> 0 \<le> datalen c \<and> datalen c \<le> r \<and>
     drop (nat (datalen c)) (data c) = zero_bytes (r - datalen c)"

section \<open>LEDController: colour sampling and smoothing\<close>

text \<open>
  A Python float is a binary64 number and is modelled by the real number it denotes.
  In the smoothing and in the saturation boost every arithmetic operation is followed
  by the rounding of IEEE 754: to the nearest representable number, ties to the even
  significand, with the subnormal range below \<open>2 powr - 1022\<close>. Overflow to infinity is
  not modelled; under the provisos used below no magnitude exceeds 512. In the geometry
  \<open>cos\<close> and \<open>sin\<close> are the real functions and nothing is rounded; what is proved of
  the coordinates uses only that they lie between -1 and 1. \<^verbatim>\<open>int(x)\<close> on a float
  cuts the fraction off, towards zero.
\<close>

record RGBColor =
  red :: int
  green :: int
  blue :: int

definition py_int :: "real \<Rightarrow> int" where
  "py_int x = (if 0 \<le> x then \<lfloor>x\<rfloor> else \<lceil>x\<rceil>)"

definition round_half_even :: "real \<Rightarrow> int" where
  "round_half_even x =
     (let f = \<lfloor>x\<rfloor>; r = x - of_int f
      in if r < 1 / 2 then f else if 1 / 2 < r then f + 1 else if even f then f else f + 1)"

definition double_exponent :: "real \<Rightarrow> int" where
  "double_exponent x = max \<lfloor>log 2 \<bar>x\<bar>\<rfloor> (- 1022)"

definition float_round :: "real \<Rightarrow> real" where
  "float_round x =
     (if x = 0 then 0
      else real_of_int (round_half_even (x / 2 powr real_of_int (double_exponent x - 52))) *
           2 powr real_of_int (double_exponent x - 52))"

text \<open>An \<^verbatim>\<open>int\<close> operand of a float operation is converted to a float first.\<close>

definition py_float :: "int \<Rightarrow> real" where
  "py_float n = float_round (real_of_int n)"

text \<open>
  The captured frame and the colour conversions belong to Qt and are parameters of
  the model: a frame maps a coordinate pair to the pixel value that
  \<^verbatim>\<open>image.pixel(x, y)\<close> returns; \<open>toHsv\<close> gives hue, saturation and value of the
  \<^verbatim>\<open>QColor\<close> of a pixel after \<^verbatim>\<open>toHsv()\<close>; \<open>fromHsv\<close> gives the red, green and
  blue components that a \<^verbatim>\<open>QColor\<close> reports after \<^verbatim>\<open>setHsv(h, s, v)\<close>.
\<close>

type_synonym QRgb = "32 word"

type_synonym QImage = "int \<Rightarrow> int \<Rightarrow> QRgb"

record QColor_ops =
  toHsv :: "QRgb \<Rightarrow> int \<times> int \<times> int"
  fromHsv :: "int \<times> int \<times> int \<Rightarrow> RGBColor"

definition led_angle :: "nat \<Rightarrow> real" where
  "led_angle i = 2 * pi * (23 - real i) / 24"

definition sample_x :: "int \<Rightarrow> int \<Rightarrow> real \<Rightarrow> int" where
  "sample_x width radius angle =
     width - py_int (real_of_int width / 2 + real_of_int radius * cos angle)"

definition sample_y :: "int \<Rightarrow> int \<Rightarrow> real \<Rightarrow> int" where
  "sample_y height radius angle =
     py_int (real_of_int height / 2 + real_of_int radius * sin angle)"

text \<open>The coordinates handed to \<^verbatim>\<open>image.pixel\<close> for LED \<open>i\<close>; the code applies no clamp.\<close>

definition sample_point :: "int \<Rightarrow> int \<Rightarrow> nat \<Rightarrow> int \<times> int" where
  "sample_point width height i =
     (let radius = min width height div 2;
          angle = led_angle i
      in (sample_x width radius angle, sample_y height radius angle))"

definition boost_saturation :: "real \<Rightarrow> int \<Rightarrow> int" where
  "boost_saturation saturation_factor s =
     min 255 (py_int (float_round (py_float s * saturation_factor)))"


text \<open>The value of \<^verbatim>\<open>rgb_color\<close> in pass \<open>i\<close> of the loop.\<close>

definition sampled_color ::
    "QColor_ops \<Rightarrow> QImage \<Rightarrow> int \<Rightarrow> int \<Rightarrow> real \<Rightarrow> nat \<Rightarrow> RGBColor" where
  "sampled_color qt img width height saturation_factor i =
     (case sample_point width height i of
        (x, y) \<Rightarrow>
          (case toHsv qt (img x y) of
             (h, s, v) \<Rightarrow> fromHsv qt (h, boost_saturation saturation_factor s, v)))"

definition smooth_channel :: "real \<Rightarrow> int \<Rightarrow> int \<Rightarrow> int" where
  "smooth_channel smoothing_factor old new =
     py_int (float_round
       (float_round (py_float old * float_round (1 - smoothing_factor)) +
        float_round (py_float new * smoothing_factor)))"

definition smooth :: "real \<Rightarrow> RGBColor \<Rightarrow> RGBColor \<Rightarrow> RGBColor" where
  "smooth smoothing_factor old rgb_color =
     \<lparr>red = smooth_channel smoothing_factor (red old) (red rgb_color),
      green = smooth_channel smoothing_factor (green old) (green rgb_color),
      blue = smooth_channel smoothing_factor (blue old) (blue rgb_color)\<rparr>"

text \<open>
  Pass \<open>i\<close> of \<^verbatim>\<open>for i in range(24)\<close>: the assignment to \<^verbatim>\<open>self.last_rgb_colors[i]\<close>.
  The list holds 24 entries from its creation on, so the index is always in range.
\<close>

definition led_update ::
    "QColor_ops \<Rightarrow> QImage \<Rightarrow> int \<Rightarrow> int \<Rightarrow> real \<Rightarrow> real \<Rightarrow> nat \<Rightarrow>
     RGBColor list \<Rightarrow> RGBColor list" where
  "led_update qt img width height smoothing_factor saturation_factor i colors =
     colors[i := smooth smoothing_factor (colors ! i)
                   (sampled_color qt img width height saturation_factor i)]"

section \<open>LEDController and LEDWorker: state, connection and pushes\<close>

text \<open>
  The OpenRGB session is seen through the devices it lists; each device has a name and
  zones, each zone a name and a number of LEDs. What the code does to the backend is
  recorded as a list of writes: \<open>SetColor d i c\<close> sets LED \<open>i\<close> of the pump zone of the
  device at position \<open>d\<close>, \<open>Clear d\<close> clears that device.
\<close>

record zone =
  zone_name :: string
  leds :: nat

record device =
  device_name :: string
  zones :: "zone list"

type_synonym OpenRGBClient = "device list"

datatype led_write = SetColor nat nat RGBColor | Clear nat

record LEDController =
  enabled :: bool
  client :: "OpenRGBClient option"
  last_rgb_colors :: "RGBColor list"

definition analyze_and_set_colors ::
    "QColor_ops \<Rightarrow> QImage \<Rightarrow> int \<Rightarrow> int \<Rightarrow> real \<Rightarrow> real \<Rightarrow>
     LEDController \<Rightarrow> LEDController" where
  "analyze_and_set_colors qt img width height smoothing_factor saturation_factor st =
     (if \<not> enabled st then st
      else st\<lparr>last_rgb_colors :=
        fold (led_update qt img width height smoothing_factor saturation_factor)
          [0..<24] (last_rgb_colors st)\<rparr>)"

text \<open>
  \<^verbatim>\<open>connect_to_openrgb\<close>: the backend answers the attempt numbered \<open>attempt\<close> with a
  session or with \<open>None\<close> (the constructor raises). The events are the constructor
  calls, the warning and the calls of \<^verbatim>\<open>time.sleep\<close> with their seconds, in order.
\<close>

datatype event = Connect | Warning | Sleep nat

fun connect_loop ::
    "(nat \<Rightarrow> OpenRGBClient option) \<Rightarrow> nat list \<Rightarrow> OpenRGBClient option \<times> event list" where
  "connect_loop backend [] = (None, [])"
| "connect_loop backend (attempt # rest) =
     (case backend attempt of
        Some cl \<Rightarrow> (Some cl, [Connect])
      | None \<Rightarrow>
          (case connect_loop backend rest of
             (r, evs) \<Rightarrow>
               (r, [Connect] @ (if attempt = 0 then [Warning] else []) @ [Sleep 5] @ evs)))"

definition connect_to_openrgb ::
    "(nat \<Rightarrow> OpenRGBClient option) \<Rightarrow> OpenRGBClient option \<times> event list" where
  "connect_to_openrgb backend = connect_loop backend [0, 1]"

definition black :: RGBColor where
  "black = \<lparr>red = 0, green = 0, blue = 0\<rparr>"

text \<open>
  The constructor. Without a session it clears \<open>enabled\<close> and returns before the colour
  list, the worker and the timer are created; the empty list stands for the missing
  attribute.
\<close>

definition LEDController_init ::
    "(nat \<Rightarrow> OpenRGBClient option) \<Rightarrow> LEDController \<times> event list" where
  "LEDController_init backend =
     (case connect_to_openrgb backend of
        (None, evs) \<Rightarrow> (\<lparr>enabled = False, client = None, last_rgb_colors = []\<rparr>, evs)
      | (Some cl, evs) \<Rightarrow>
          (\<lparr>enabled = True, client = Some cl, last_rgb_colors = replicate 24 black\<rparr>, evs))"

text \<open>
  \<^verbatim>\<open>LEDWorker.set_colors\<close>. An exception (no zone named Pump, or a zone with fewer
  LEDs than colours) ends the whole loop; the writes made before it stay made.
\<close>

fun zone_writes :: "nat \<Rightarrow> nat \<Rightarrow> nat \<Rightarrow> RGBColor list \<Rightarrow> led_write list \<times> bool" where
  "zone_writes d n i [] = ([], True)"
| "zone_writes d n i (c # cs) =
     (if i < n
      then (case zone_writes d n (Suc i) cs of (ws, ok) \<Rightarrow> (SetColor d i c # ws, ok))
      else ([], False))"

fun device_writes :: "nat \<Rightarrow> device list \<Rightarrow> RGBColor list \<Rightarrow> led_write list" where
  "device_writes d [] colors = []"
| "device_writes d (dev # devs) colors =
     (if device_name dev = ''Corsair Commander Core''
      then (case find (\<lambda>z. zone_name z = ''Pump'') (zones dev) of
              None \<Rightarrow> []
            | Some pump_zone \<Rightarrow>
                (case zone_writes d (leds pump_zone) 0 colors of
                   (ws, ok) \<Rightarrow> if ok then ws @ device_writes (Suc d) devs colors else ws))
      else device_writes (Suc d) devs colors)"

definition set_colors :: "LEDController \<Rightarrow> led_write list" where
  "set_colors st =
     (if \<not> enabled st then []
      else case client st of
             None \<Rightarrow> []
           | Some devs \<Rightarrow> device_writes 0 devs (last_rgb_colors st))"

fun turn_off_leds :: "nat \<Rightarrow> device list \<Rightarrow> led_write list" where
  "turn_off_leds d [] = []"
| "turn_off_leds d (dev # devs) =
     (if device_name dev = ''Corsair Commander Core''
      then Clear d # turn_off_leds (Suc d) devs
      else turn_off_leds (Suc d) devs)"

definition stop_led :: "LEDController \<Rightarrow> LEDController \<times> led_write list" where
  "stop_led st =
     (st\<lparr>enabled := False\<rparr>,
      case client st of None \<Rightarrow> [] | Some devs \<Rightarrow> turn_off_leds 0 devs)"

text \<open>
  What can happen to a controller after its construction: a timer tick with the frame
  captured at that moment (the tick ends by emitting the signal that runs
  \<^verbatim>\<open>set_colors\<close>), a direct call of \<^verbatim>\<open>set_colors\<close>, and \<^verbatim>\<open>stop_led\<close>. The timer
  calls \<^verbatim>\<open>analyze_and_set_colors\<close> with its default arguments.
\<close>

datatype controller_op = Tick QImage | SetColors | StopLed

fun controller_step ::
    "QColor_ops \<Rightarrow> controller_op \<Rightarrow> LEDController \<Rightarrow> LEDController \<times> led_write list" where
  "controller_step qt (Tick img) st =
     (let st' = analyze_and_set_colors qt img 479 479 0.25 1.25 st
      in (st', if enabled st then set_colors st' else []))"
| "controller_step qt SetColors st = (st, set_colors st)"
| "controller_step qt StopLed st = stop_led st"

fun run_ops ::
    "QColor_ops \<Rightarrow> controller_op list \<Rightarrow> LEDController \<Rightarrow> LEDController \<times> led_write list" where
  "run_ops qt [] st = (st, [])"
| "run_ops qt (op # ops) st =
     (case controller_step qt op st of
        (st', ws) \<Rightarrow> (case run_ops qt ops st' of (st'', ws') \<Rightarrow> (st'', ws @ ws')))"

text \<open>A run of smoothing ticks, one per captured frame.\<close>

fun run_ticks ::
    "QColor_ops \<Rightarrow> int \<Rightarrow> int \<Rightarrow> real \<Rightarrow> real \<Rightarrow> QImage list \<Rightarrow> LEDController \<Rightarrow> LEDController" where
  "run_ticks qt width height smoothing_factor saturation_factor [] st = st"
| "run_ticks qt width height smoothing_factor saturation_factor (img # imgs) st =
     run_ticks qt width height smoothing_factor saturation_factor imgs
       (analyze_and_set_colors qt img width height smoothing_factor saturation_factor st)"

text \<open>
  The range of an RGB triple, the state of a controller whose 24 colours are all in
  range, and a frame all of whose 24 sampled colours are in range.
\<close>

definition valid_rgb :: "RGBColor \<Rightarrow> bool" where
  "valid_rgb c \<longleftrightarrow>
     0 \<le> red c \<and> red c \<le> 255 \<and> 0 \<le> green c \<and> green c \<le> 255 \<and>
     0 \<le> blue c \<and> blue c \<le> 255"

definition colors_ok :: "LEDController \<Rightarrow> bool" where
  "colors_ok st \<longleftrightarrow> length (last_rgb_colors st) = 24 \<and> list_all valid_rgb (last_rgb_colors st)"

definition frame_in_range :: "QColor_ops \<Rightarrow> int \<Rightarrow> int \<Rightarrow> real \<Rightarrow> QImage \<Rightarrow> bool" where
  "frame_in_range qt width height saturation_factor img \<longleftrightarrow>
     list_all (\<lambda>i. valid_rgb (sampled_color qt img width height saturation_factor i)) [0..<24]"

text \<open>
  Modelled from the spec: the conversions between RGB and hue, saturation and value
  are those of Qt's \<^verbatim>\<open>QColor\<close>, which is not among the source files. The spec has the
  sampler convert the sampled RGB colour to hue, saturation and value and convert back
  to RGB; Qt documents a hue of -1 or 0..359, saturation and value in 0..255, and, for
  a colour set from a hue above -2 with saturation and value in 0..255, red, green and
  blue components in 0..255. A pair of conversions that keeps to these ranges:
\<close>

definition qt_documented :: "QColor_ops \<Rightarrow> bool" where
  "qt_documented qt \<longleftrightarrow>
     (\<forall>px. case toHsv qt px of
             (h, s, v) \<Rightarrow> - 1 \<le> h \<and> h \<le> 359 \<and> 0 \<le> s \<and> s \<le> 255 \<and> 0 \<le> v \<and> v \<le> 255) \<and>
     (\<forall>h s v. - 1 \<le> h \<and> 0 \<le> s \<and> s \<le> 255 \<and> 0 \<le> v \<and> v \<le> 255 \<longrightarrow>
        valid_rgb (fromHsv qt (h, s, v)))"

text \<open>
  A small environment for concrete runs: a frame of one grey level, the conversions as
  they act on the grey pixel (3, 3, 3) (no hue, saturation 0, value 3), and a controller
  as the constructor leaves it after a successful connection to a backend without
  devices.
\<close>

definition grey_ops :: QColor_ops where
  "grey_ops =
     \<lparr>toHsv = (\<lambda>_. (- 1, 0, 3)),
      fromHsv = (\<lambda>(h, s, v). \<lparr>red = v, green = v, blue = v\<rparr>)\<rparr>"

text \<open>
  The conversions as they act at hue 0, on a pixel of saturation 240 and value 200:
  red is the value, green and blue are the value lowered in proportion to the
  saturation.
\<close>

definition red_ops :: QColor_ops where
  "red_ops =
     \<lparr>toHsv = (\<lambda>_. (0, 240, 200)),
      fromHsv = (\<lambda>(h, s, v). \<lparr>red = v, green = v - v * s div 255, blue = v - v * s div 255\<rparr>)\<rparr>"

definition grey_frame :: QImage where
  "grey_frame = (\<lambda>x y. 0xFF030303)"

definition connected :: LEDController where
  "connected = \<lparr>enabled = True, client = Some [], last_rgb_colors = replicate 24 black\<rparr>"

section \<open>Properties of the framer\<close>

subsection \<open>Auxiliary facts\<close>

lemma body_fst_snd:
  "make_commands_body opc r dat pn =
     (\<lparr>opcode = opc, unknown1 = 5, unknown2 = 64, is_end = (slice_from dat r = []),
       part_num = pn, datalen = min r (int (length dat)),
       data = (if int (length dat) < r then dat @ zero_bytes (r - int (length dat)) else slice_to dat r)\<rparr>,
      slice_from dat r)"
  by (simp add: make_commands_body_def Let_def)

lemma slice_from_nonpos:
  assumes "r \<le> 0" "dat \<noteq> []" shows "slice_from dat r \<noteq> []"
proof (cases "0 \<le> r")
  case True
  with assms show ?thesis by (simp add: slice_from_def)
next
  case False
  from assms(2) have "0 < length dat" by simp
  with False have "length dat - nat (- r) < length dat" by arith
  with False show ?thesis by (simp add: slice_from_def)
qed

lemma loop_diverges_aux:
  assumes "make_commands_loop opc r dat pn = Some cs"
  shows "\<not> (r \<le> 0 \<and> dat \<noteq> [])"
proof (rule make_commands_loop.raw_induct
    [where P = "\<lambda>opc r dat pn cs. \<not> (r \<le> 0 \<and> dat \<noteq> [])", OF _ assms])
  fix f opc r dat pn cs
  assume IH: "\<And>opc r dat pn cs. f opc r dat pn = Some cs \<Longrightarrow> \<not> (r \<le> 0 \<and> dat \<noteq> [])"
    and eq: "(if dat = [] then Some []
      else case make_commands_body opc r dat pn of
           (c, rest) \<Rightarrow> Option.bind (f opc r rest (pn + 1)) (\<lambda>cs. Some (c # cs))) = Some cs"
  show "\<not> (r \<le> 0 \<and> dat \<noteq> [])"
  proof
    assume a: "r \<le> 0 \<and> dat \<noteq> []"
    then have ne: "slice_from dat r \<noteq> []" by (simp add: slice_from_nonpos)
    from eq a obtain cs' where "f opc r (slice_from dat r) (pn + 1) = Some cs'"
      by (auto simp: body_fst_snd split: Option.bind_splits)
    from IH[OF this] a ne show False by simp
  qed
qed

lemma loop_diverges: "r \<le> 0 \<Longrightarrow> dat \<noteq> [] \<Longrightarrow> make_commands_loop opc r dat pn = None"
  using loop_diverges_aux[of opc r dat pn] by (cases "make_commands_loop opc r dat pn") auto


lemma slice_from_pos: "0 < r \<Longrightarrow> slice_from dat r = drop (nat r) dat"
  by (simp add: slice_from_def)

lemma slice_to_pos: "0 \<le> r \<Longrightarrow> slice_to dat r = take (nat r) dat"
  by (simp add: slice_to_def)

lemma upto_Suc_nonempty:
  "dat \<noteq> [] \<Longrightarrow> make_commands_upto (Suc n) opc r dat pn =
     fst (make_commands_body opc r dat pn) #
       make_commands_upto n opc r (slice_from dat r) (pn + 1)"
  by (simp add: body_fst_snd)

declare make_commands_upto.simps(2) [simp del]

lemma upto_empty [simp]: "make_commands_upto n opc r [] pn = []"
  by (cases n) (simp_all add: make_commands_upto.simps(2))

lemma upto_part_num:
  "i < length (make_commands_upto n opc r dat pn) \<Longrightarrow>
   part_num (make_commands_upto n opc r dat pn ! i) = pn + int i"
proof (induction n arbitrary: dat pn i)
  case 0
  then show ?case by simp
next
  case (Suc n)
  show ?case
  proof (cases "dat = []")
    case True
    with Suc.prems show ?thesis by simp
  next
    case False
    show ?thesis
    proof (cases i)
      case 0
      with False show ?thesis by (simp add: upto_Suc_nonempty body_fst_snd)
    next
      case (Suc j)
      with Suc.prems False
      have "j < length (make_commands_upto n opc r (slice_from dat r) (pn + 1))"
        by (simp add: upto_Suc_nonempty)
      from Suc.IH[OF this] Suc False show ?thesis
        by (simp add: upto_Suc_nonempty)
    qed
  qed
qed

lemma upto_datalen_le:
  "c \<in> set (make_commands_upto n opc r dat pn) \<Longrightarrow> datalen c \<le> r"
proof (induction n arbitrary: dat pn)
  case 0
  then show ?case by simp
next
  case (Suc n)
  show ?case
  proof (cases "dat = []")
    case True
    with Suc.prems show ?thesis by simp
  next
    case False
    with Suc.prems have "c = fst (make_commands_body opc r dat pn) \<or>
        c \<in> set (make_commands_upto n opc r (slice_from dat r) (pn + 1))"
      by (simp add: upto_Suc_nonempty)
    then show ?thesis
    proof
      assume "c = fst (make_commands_body opc r dat pn)"
      then show ?thesis by (simp add: body_fst_snd)
    next
      assume "c \<in> set (make_commands_upto n opc r (slice_from dat r) (pn + 1))"
      then show ?thesis by (rule Suc.IH)
    qed
  qed
qed

lemma body_not_end_datalen:
  assumes "dat \<noteq> []" "slice_from dat r \<noteq> []"
  shows "datalen (fst (make_commands_body opc r dat pn)) = r"
proof (cases "0 < r")
  case True
  with assms(2) have "nat r < length dat" by (simp add: slice_from_pos)
  with True show ?thesis by (simp add: body_fst_snd)
next
  case False
  then show ?thesis by (simp add: body_fst_snd)
qed

lemma upto_nonfinal:
  "Suc i < length (make_commands_upto n opc r dat pn) \<Longrightarrow>
   datalen (make_commands_upto n opc r dat pn ! i) = r \<and>
   \<not> is_end (make_commands_upto n opc r dat pn ! i)"
proof (induction n arbitrary: dat pn i)
  case 0
  then show ?case by simp
next
  case (Suc n)
  show ?case
  proof (cases "dat = []")
    case True
    with Suc.prems show ?thesis by simp
  next
    case False
    show ?thesis
    proof (cases i)
      case 0
      with Suc.prems False
      have "make_commands_upto n opc r (slice_from dat r) (pn + 1) \<noteq> []"
        by (simp add: upto_Suc_nonempty)
      then have ne: "slice_from dat r \<noteq> []" by (cases n) auto
      with False 0 show ?thesis
        by (simp add: upto_Suc_nonempty body_not_end_datalen) (simp add: body_fst_snd)
    next
      case (Suc j)
      with Suc.prems False
      have "Suc j < length (make_commands_upto n opc r (slice_from dat r) (pn + 1))"
        by (simp add: upto_Suc_nonempty)
      from Suc.IH[OF this] Suc False show ?thesis
        by (simp add: upto_Suc_nonempty)
    qed
  qed
qed

lemma upto_complete:
  "0 < r \<Longrightarrow> length dat \<le> n \<Longrightarrow>
   make_commands_loop opc r dat pn = Some (make_commands_upto n opc r dat pn)"
proof (induction n arbitrary: dat pn)
  case 0
  then show ?case by (simp add: make_commands_loop.simps)
next
  case (Suc n)
  show ?case
  proof (cases "dat = []")
    case True
    then show ?thesis by (simp add: make_commands_loop.simps)
  next
    case False
    then have "0 < length dat" by simp
    with Suc.prems have "length (slice_from dat r) \<le> n"
      by (simp add: slice_from_pos)
    from Suc.IH[OF Suc.prems(1) this, of "pn + 1"] False show ?thesis
      by (subst make_commands_loop.simps)
        (simp add: body_fst_snd make_commands_upto.simps(2))
  qed
qed


lemma ceil_div_step:
  fixes L k :: nat
  assumes "0 < k" "0 < L"
  shows "Suc ((L - k + k - 1) div k) = (L + k - 1) div k"
proof (cases "L \<le> k")
  case True
  with assms have "(L + k - 1) div k = 1"
    by (simp add: div_nat_eqI)
  moreover from True assms have "(L - k + k - 1) div k = 0" by simp
  ultimately show ?thesis by simp
next
  case False
  define m where "m = L - k + k - 1"
  from False assms have "L + k - 1 = m + k" unfolding m_def by arith
  moreover from assms have "(m + k) div k = Suc (m div k)" by simp
  ultimately show ?thesis unfolding m_def by simp
qed

lemma upto_length:
  "0 < r \<Longrightarrow> length dat \<le> n \<Longrightarrow>
   length (make_commands_upto n opc r dat pn) = (length dat + nat r - 1) div nat r"
proof (induction n arbitrary: dat pn)
  case 0
  then show ?case by simp
next
  case (Suc n)
  show ?case
  proof (cases "dat = []")
    case True
    with Suc.prems show ?thesis by simp
  next
    case False
    then have pos: "0 < length dat" by simp
    with Suc.prems have "length (slice_from dat r) \<le> n"
      by (simp add: slice_from_pos)
    from Suc.IH[OF Suc.prems(1) this, of "pn + 1"]
    have "length (make_commands_upto (Suc n) opc r dat pn) =
        Suc ((length dat - nat r + nat r - 1) div nat r)"
      using False Suc.prems(1) by (simp add: upto_Suc_nonempty slice_from_pos)
    also have "\<dots> = (length dat + nat r - 1) div nat r"
      using Suc.prems(1) pos by (intro ceil_div_step) simp_all
    finally show ?thesis .
  qed
qed

lemma upto_final:
  "0 < r \<Longrightarrow> length dat \<le> n \<Longrightarrow>
   Suc i = length (make_commands_upto n opc r dat pn) \<Longrightarrow>
   is_end (make_commands_upto n opc r dat pn ! i)"
proof (induction n arbitrary: dat pn i)
  case 0
  then show ?case by simp
next
  case (Suc n)
  show ?case
  proof (cases "dat = []")
    case True
    with Suc.prems show ?thesis by simp
  next
    case False
    then have pos: "0 < length dat" by simp
    with Suc.prems have le: "length (slice_from dat r) \<le> n"
      by (simp add: slice_from_pos)
    show ?thesis
    proof (cases i)
      case 0
      with Suc.prems(3) False
      have "make_commands_upto n opc r (slice_from dat r) (pn + 1) = []"
        by (simp add: upto_Suc_nonempty)
      moreover from le
      have "length (make_commands_upto n opc r (slice_from dat r) (pn + 1)) =
          (length (slice_from dat r) + nat r - 1) div nat r"
        by (rule upto_length[OF Suc.prems(1)])
      ultimately have "(length (slice_from dat r) + nat r - 1) div nat r = 0" by simp
      with Suc.prems(1) have "slice_from dat r = []"
        by (cases "slice_from dat r") (auto simp: div_eq_0_iff)
      with 0 False show ?thesis by (simp add: upto_Suc_nonempty body_fst_snd)
    next
      case (Suc j)
      with Suc.prems(3) False
      have "Suc j = length (make_commands_upto n opc r (slice_from dat r) (pn + 1))"
        by (simp add: upto_Suc_nonempty)
      from Suc.IH[OF Suc.prems(1) le this] Suc False show ?thesis
        by (simp add: upto_Suc_nonempty)
    qed
  qed
qed

lemma body_payload:
  assumes "0 < r" "dat \<noteq> []"
  shows "slice_to (data (fst (make_commands_body opc r dat pn)))
           (datalen (fst (make_commands_body opc r dat pn))) = take (nat r) dat"
proof (cases "int (length dat) < r")
  case True
  then show ?thesis by (simp add: body_fst_snd slice_to_pos)
next
  case False
  with assms show ?thesis by (simp add: body_fst_snd slice_to_pos min_def)
qed

lemma upto_concat:
  "0 < r \<Longrightarrow> length dat \<le> n \<Longrightarrow>
   concat (map (\<lambda>c. slice_to (data c) (datalen c)) (make_commands_upto n opc r dat pn)) = dat"
proof (induction n arbitrary: dat pn)
  case 0
  then show ?case by simp
next
  case (Suc n)
  show ?case
  proof (cases "dat = []")
    case True
    then show ?thesis by simp
  next
    case False
    then have pos: "0 < length dat" by simp
    with Suc.prems have le: "length (slice_from dat r) \<le> n"
      by (simp add: slice_from_pos)
    from Suc.IH[OF Suc.prems(1) le, of "pn + 1"] False Suc.prems(1) show ?thesis
      by (simp add: upto_Suc_nonempty body_payload) (simp add: slice_from_pos)
  qed
qed


lemma upto_part_nums:
  "map part_num (make_commands_upto n opc r dat pn) =
     map (\<lambda>i. pn + int i) [0..<length (make_commands_upto n opc r dat pn)]"
  by (rule nth_equalityI) (simp_all add: upto_part_num)

lemma upto_sorted: "sorted (map part_num (make_commands_upto n opc r dat pn))"
  by (subst upto_part_nums) (simp add: sorted_iff_nth_mono)

lemma upto_datalen_ok:
  "datalen_ok S (make_commands_upto n opc (S - HEADER_SIZE) dat pn)"
  unfolding datalen_ok_def
  by (auto simp: list_all_iff upto_datalen_le in_set_conv_nth nth_butlast upto_nonfinal)

lemma make_commands_total:
  "8 < S \<Longrightarrow> make_commands P opc S = Some (make_commands_first (length P) P opc S)"
  by (simp add: make_commands_def make_commands_first_def HEADER_SIZE_def upto_complete)

lemma ceiling_nat_div:
  fixes L k :: nat
  assumes "0 < k"
  shows "\<lceil>real L / real k\<rceil> = int ((L + k - 1) div k)"
proof (rule ceiling_unique)
  define q where "q = (L + k - 1) div k"
  have "q * k \<le> L + k - 1" unfolding q_def by simp
  moreover have "L + k - 1 < Suc q * k" unfolding q_def using assms
    by (metis add.commute dividend_less_div_times mult.commute mult_Suc)
  ultimately have a: "q * k < L + k" and b: "L \<le> q * k" using assms by auto
  from a have "real q * real k < real L + real k"
    by (metis of_nat_add of_nat_less_iff of_nat_mult)
  then have "(real q - 1) * real k < real L" by (simp add: algebra_simps)
  with assms show "real_of_int (int q) - 1 < real L / real k"
    by (simp add: pos_less_divide_eq)
  from b have "real L \<le> real q * real k"
    by (metis of_nat_le_iff of_nat_mult)
  with assms show "real L / real k \<le> real_of_int (int q)"
    by (simp add: pos_divide_le_eq)
qed

lemma upto_is_end_iff:
  assumes "0 < r" "length dat \<le> n" "i < length (make_commands_upto n opc r dat pn)"
  shows "is_end (make_commands_upto n opc r dat pn ! i) \<longleftrightarrow>
         Suc i = length (make_commands_upto n opc r dat pn)"
proof (cases "Suc i = length (make_commands_upto n opc r dat pn)")
  case True
  with assms show ?thesis by (simp add: upto_final)
next
  case False
  with assms(3) have "Suc i < length (make_commands_upto n opc r dat pn)" by simp
  with False show ?thesis by (simp add: upto_nonfinal)
qed

lemma make_commands_count_general:
  assumes "P \<noteq> []" and "8 < S"
  shows "\<exists>cs. make_commands P opc S = Some cs \<and>
        int (length cs) = \<lceil>real (length P) / real_of_int (S - 8)\<rceil> \<and>
        map part_num cs = map int [0..<length cs] \<and>
        (\<forall>i<length cs. is_end (cs ! i) \<longleftrightarrow> Suc i = length cs)"
proof -
  let ?cs = "make_commands_first (length P) P opc S"
  from assms(2) have pos: "0 < S - 8" by simp
  from assms(2) have "make_commands P opc S = Some ?cs" by (rule make_commands_total)
  moreover have "length ?cs = (length P + nat (S - 8) - 1) div nat (S - 8)"
    using pos by (simp add: make_commands_first_def HEADER_SIZE_def upto_length)
  moreover have "\<lceil>real (length P) / real (nat (S - 8))\<rceil> =
      int ((length P + nat (S - 8) - 1) div nat (S - 8))"
    using pos by (intro ceiling_nat_div) simp
  moreover have "real (nat (S - 8)) = real_of_int (S - 8)"
    using pos by simp
  ultimately have "make_commands P opc S = Some ?cs" and
    "int (length ?cs) = \<lceil>real (length P) / real_of_int (S - 8)\<rceil>"
    by (simp_all only:)
  moreover have "map part_num ?cs = map int [0..<length ?cs]"
    unfolding make_commands_first_def by (subst upto_part_nums) simp
  moreover have "\<forall>i<length ?cs. is_end (?cs ! i) \<longleftrightarrow> Suc i = length ?cs"
    using pos unfolding make_commands_first_def HEADER_SIZE_def
    by (intro allI impI upto_is_end_iff) simp_all
  ultimately show ?thesis by blast
qed

lemma make_commands_Some_first:
  assumes "make_commands P opc S = Some cs"
  shows "cs = make_commands_first (length P) P opc S"
proof (cases "8 < S")
  case True
  with assms show ?thesis by (simp add: make_commands_total)
next
  case False
  with assms have "P = []"
    using loop_diverges[of "S - 8" P opc 0]
    by (cases "P = []") (simp_all add: make_commands_def HEADER_SIZE_def)
  with assms show ?thesis
    by (simp add: make_commands_def make_commands_first_def make_commands_loop.simps)
qed

lemma byte_of_int_ok: "0 \<le> n \<Longrightarrow> n < 256 \<Longrightarrow> byte_of_int n = Inr (word_of_int n)"
  by (simp add: byte_of_int_def)

lemma int_to_bytes2_le_ok:
  "0 \<le> n \<Longrightarrow> n < 65536 \<Longrightarrow>
   int_to_bytes2_le n = Inr [word_of_int (n mod 256), word_of_int (n div 256)]"
  by (simp add: int_to_bytes2_le_def)

lemma le16_decode:
  assumes "0 \<le> n" "n < 65536"
  shows "uint (word_of_int (n mod 256) :: byte) + 256 * uint (word_of_int (n div 256) :: byte) = n"
proof -
  have "uint (word_of_int (n mod 256) :: byte) = n mod 256"
    by (simp add: uint_word_of_int)
  moreover from assms have "0 \<le> n div 256" "n div 256 < 256" by simp_all
  then have "uint (word_of_int (n div 256) :: byte) = n div 256"
    by (simp add: uint_word_of_int)
  ultimately show ?thesis by simp
qed

lemma to_bytes_ok:
  assumes "0 \<le> opcode c" "opcode c < 256" "0 \<le> unknown1 c" "unknown1 c < 256"
    "0 \<le> unknown2 c" "unknown2 c < 256"
    "0 \<le> part_num c" "part_num c < 65536" "0 \<le> datalen c" "datalen c < 65536"
  shows "to_bytes c =
    Inr ([word_of_int (opcode c), word_of_int (unknown1 c), word_of_int (unknown2 c),
          if is_end c then 1 else 0] @
         [word_of_int (part_num c mod 256), word_of_int (part_num c div 256)] @
         [word_of_int (datalen c mod 256), word_of_int (datalen c div 256)] @ data c)"
  using assms by (simp add: to_bytes_def byte_of_int_ok int_to_bytes2_le_ok)

lemma to_bytes_layout_general:
  assumes "0 \<le> opcode c" "opcode c < 256" "unknown1 c = 0x05" "unknown2 c = 0x40"
    "0 \<le> part_num c" "part_num c < 65536" "0 \<le> datalen c" "datalen c < 65536"
    "int (length (data c)) = S - 8"
  shows "\<exists>bs. to_bytes c = Inr bs \<and> int (length bs) = S \<and>
      bs ! 0 = word_of_int (opcode c) \<and> bs ! 1 = 0x05 \<and> bs ! 2 = 0x40 \<and>
      bs ! 3 = (if is_end c then 0x01 else 0x00) \<and>
      uint (bs ! 4) + 256 * uint (bs ! 5) = part_num c \<and>
      uint (bs ! 6) + 256 * uint (bs ! 7) = datalen c \<and>
      drop 8 bs = data c"
proof -
  let ?bs = "[word_of_int (opcode c), word_of_int (unknown1 c), word_of_int (unknown2 c),
          if is_end c then 1 else 0] @
         [word_of_int (part_num c mod 256), word_of_int (part_num c div 256)] @
         [word_of_int (datalen c mod 256), word_of_int (datalen c div 256)] @ data c"
  from assms have "to_bytes c = Inr ?bs" by (intro to_bytes_ok) simp_all
  moreover from assms(9) have "int (length ?bs) = S" by simp
  moreover have "?bs ! 0 = word_of_int (opcode c)" by simp
  moreover from assms(3,4) have "?bs ! 1 = 0x05" "?bs ! 2 = 0x40" by simp_all
  moreover have "?bs ! 3 = (if is_end c then 0x01 else 0x00)" by simp
  moreover from assms(5,6) have "uint (?bs ! 4) + 256 * uint (?bs ! 5) = part_num c"
    using le16_decode[of "part_num c"] by simp
  moreover from assms(7,8) have "uint (?bs ! 6) + 256 * uint (?bs ! 7) = datalen c"
    using le16_decode[of "datalen c"] by simp
  moreover have "drop 8 ?bs = data c" by simp
  ultimately show ?thesis by blast
qed

lemma body_fields:
  assumes "0 < r" "dat \<noteq> []"
  shows "opcode (fst (make_commands_body opc r dat pn)) = opc"
    "unknown1 (fst (make_commands_body opc r dat pn)) = 5"
    "unknown2 (fst (make_commands_body opc r dat pn)) = 64"
    "int (length (data (fst (make_commands_body opc r dat pn)))) = r"
    "0 \<le> datalen (fst (make_commands_body opc r dat pn))"
    "drop (nat (datalen (fst (make_commands_body opc r dat pn))))
        (data (fst (make_commands_body opc r dat pn))) =
      zero_bytes (r - datalen (fst (make_commands_body opc r dat pn)))"
  using assms by (auto simp: body_fst_snd slice_to_pos zero_bytes_def min_def)

lemma upto_well_formed:
  "0 < r \<Longrightarrow> c \<in> set (make_commands_upto n opc r dat pn) \<Longrightarrow> well_formed opc r c"
proof (induction n arbitrary: dat pn)
  case 0
  then show ?case by simp
next
  case (Suc n)
  show ?case
  proof (cases "dat = []")
    case True
    with Suc.prems show ?thesis by simp
  next
    case False
    with Suc.prems have "c = fst (make_commands_body opc r dat pn) \<or>
        c \<in> set (make_commands_upto n opc r (slice_from dat r) (pn + 1))"
      by (simp add: upto_Suc_nonempty)
    then show ?thesis
    proof
      assume "c = fst (make_commands_body opc r dat pn)"
      with Suc.prems(1) False show ?thesis
        unfolding well_formed_def by (simp add: body_fields) (simp add: body_fst_snd)
    next
      assume "c \<in> set (make_commands_upto n opc r (slice_from dat r) (pn + 1))"
      with Suc.prems(1) show ?thesis by (intro Suc.IH)
    qed
  qed
qed

lemma upto_part_num_range:
  assumes "c \<in> set (make_commands_upto n opc r dat 0)"
  shows "0 \<le> part_num c \<and> part_num c < int (length (make_commands_upto n opc r dat 0))"
proof -
  from assms obtain i where "i < length (make_commands_upto n opc r dat 0)"
    and "c = make_commands_upto n opc r dat 0 ! i"
    by (auto simp: in_set_conv_nth)
  then show ?thesis by (simp add: upto_part_num)
qed

lemma make_commands_serialized:
  assumes "0 \<le> opc" "opc < 256" "length P \<le> 65536 * 1016"
  shows "\<exists>cs. make_commands P opc 1024 = Some cs \<and>
     list_all (\<lambda>c. \<exists>bs. to_bytes c = Inr bs \<and> length bs = 1024) cs"
proof -
  let ?cs = "make_commands_upto (length P) opc 1016 P 0"
  have run: "make_commands P opc 1024 = Some ?cs"
    by (simp add: make_commands_total make_commands_first_def HEADER_SIZE_def)
  have "length ?cs = (length P + nat 1016 - 1) div nat 1016"
    by (rule upto_length) simp_all
  with assms(3) have len: "length ?cs \<le> 65536" by simp
  have "\<exists>bs. to_bytes c = Inr bs \<and> length bs = 1024" if "c \<in> set ?cs" for c
  proof -
    from that have wf: "well_formed opc 1016 c" by (intro upto_well_formed) simp_all
    from that have "0 \<le> part_num c \<and> part_num c < int (length ?cs)"
      by (rule upto_part_num_range)
    with len have pn: "0 \<le> part_num c" "part_num c < 65536" by simp_all
    from wf assms(1,2) pn have "\<exists>bs. to_bytes c = Inr bs \<and> int (length bs) = 1024 \<and>
      bs ! 0 = word_of_int (opcode c) \<and> bs ! 1 = 0x05 \<and> bs ! 2 = 0x40 \<and>
      bs ! 3 = (if is_end c then 0x01 else 0x00) \<and>
      uint (bs ! 4) + 256 * uint (bs ! 5) = part_num c \<and>
      uint (bs ! 6) + 256 * uint (bs ! 7) = datalen c \<and>
      drop 8 bs = data c"
      by (intro to_bytes_layout_general) (simp_all add: well_formed_def)
    then obtain bs where "to_bytes c = Inr bs" and "int (length bs) = 1024" by blast
    then show ?thesis by auto
  qed
  with run show ?thesis by (auto simp: list_all_iff)
qed

subsection \<open>The claims\<close>

text \<open>
  C1. For every non-empty payload \<open>P\<close> and every packet size \<open>S > 8\<close>, the generator
  stops, and the packets of \<^verbatim>\<open>make_commands(P, max_len=S)\<close> taken in \<open>part_num\<close>
  order, each data block cut to its \<open>datalen\<close>, concatenate to \<open>P\<close>.
\<close>

theorem make_commands_roundtrip:
  assumes "P \<noteq> []" and "8 < S"
  shows "\<exists>cs. make_commands P opc S = Some cs \<and> reassemble cs = P"
proof -
  let ?cs = "make_commands_first (length P) P opc S"
  from assms(2) have "make_commands P opc S = Some ?cs" by (rule make_commands_total)
  moreover have "sort_key part_num ?cs = ?cs"
    by (simp add: make_commands_first_def sort_key_id_if_sorted upto_sorted)
  with assms(2) have "reassemble ?cs = P"
    by (simp add: reassemble_def)
      (simp add: make_commands_first_def HEADER_SIZE_def upto_concat)
  ultimately show ?thesis by blast
qed

theorem make_commands_roundtrip_witness:
  "[1, 2, 3 :: byte] \<noteq> [] \<and> (8 :: int) < 10 \<and>
   make_commands [1, 2, 3] 2 10 =
     Some [\<lparr>opcode = 2, unknown1 = 5, unknown2 = 64, is_end = False, part_num = 0,
             datalen = 2, data = [1, 2]\<rparr>,
           \<lparr>opcode = 2, unknown1 = 5, unknown2 = 64, is_end = True, part_num = 1,
             datalen = 1, data = [3, 0]\<rparr>] \<and>
   reassemble
     [\<lparr>opcode = 2, unknown1 = 5, unknown2 = 64, is_end = False, part_num = 0,
        datalen = 2, data = [1, 2]\<rparr>,
      \<lparr>opcode = 2, unknown1 = 5, unknown2 = 64, is_end = True, part_num = 1,
        datalen = 1, data = [3, 0]\<rparr>] = [1, 2, 3]"
proof -
  have ne: "[1, 2, 3 :: byte] \<noteq> []" and big: "(8 :: int) < 10" by simp_all
  have run: "make_commands [1, 2, 3] 2 10 =
     Some [\<lparr>opcode = 2, unknown1 = 5, unknown2 = 64, is_end = False, part_num = 0,
             datalen = 2, data = [1, 2]\<rparr>,
           \<lparr>opcode = 2, unknown1 = 5, unknown2 = 64, is_end = True, part_num = 1,
             datalen = 1, data = [3, 0]\<rparr>]"
    by (simp add: make_commands_def HEADER_SIZE_def make_commands_loop.simps body_fst_snd
        slice_from_def slice_to_def zero_bytes_def)
  from make_commands_roundtrip [OF ne big, of 2] obtain cs
    where "make_commands [1, 2, 3] 2 10 = Some cs" and "reassemble cs = [1, 2, 3]"
    by blast
  with run ne big show ?thesis by simp
qed


text \<open>
  C2, as amended. For every non-empty payload \<open>P\<close> and every packet size \<open>S > 8\<close>,
  \<^verbatim>\<open>make_commands(P, max_len=S)\<close> stops after exactly \<open>ceil(len(P) / (S - 8))\<close>
  packets, their \<open>part_num\<close> fields count up from 0 one by one, and \<open>is_end\<close> is set on
  the last packet and on no other. A payload of 2000 bytes with \<open>S = 1024\<close> gives two
  packets: the first with \<open>part_num = 0\<close>, \<open>datalen = 1016\<close> and \<open>is_end\<close> unset, the
  second with \<open>part_num = 1\<close>, \<open>datalen = 984\<close>, \<open>is_end\<close> set and 32 zero bytes of
  padding.
\<close>

theorem make_commands_count:
  "(P \<noteq> [] \<and> 8 < S \<longrightarrow>
      (\<exists>cs. make_commands P opc S = Some cs \<and>
         int (length cs) = \<lceil>real (length P) / real_of_int (S - 8)\<rceil> \<and>
         map part_num cs = map int [0..<length cs] \<and>
         (\<forall>i<length cs. is_end (cs ! i) \<longleftrightarrow> Suc i = length cs))) \<and>
   make_commands (replicate 2000 0x41) 0x02 1024 =
     Some [\<lparr>opcode = 2, unknown1 = 5, unknown2 = 64, is_end = False, part_num = 0,
             datalen = 1016, data = replicate 1016 0x41\<rparr>,
           \<lparr>opcode = 2, unknown1 = 5, unknown2 = 64, is_end = True, part_num = 1,
             datalen = 984, data = replicate 984 0x41 @ replicate 32 0\<rparr>]"
proof (intro conjI impI)
  assume "P \<noteq> [] \<and> 8 < S"
  then show "\<exists>cs. make_commands P opc S = Some cs \<and>
         int (length cs) = \<lceil>real (length P) / real_of_int (S - 8)\<rceil> \<and>
         map part_num cs = map int [0..<length cs] \<and>
         (\<forall>i<length cs. is_end (cs ! i) \<longleftrightarrow> Suc i = length cs)"
    by (intro make_commands_count_general) simp_all
next
  show "make_commands (replicate 2000 0x41) 0x02 1024 =
     Some [\<lparr>opcode = 2, unknown1 = 5, unknown2 = 64, is_end = False, part_num = 0,
             datalen = 1016, data = replicate 1016 0x41\<rparr>,
           \<lparr>opcode = 2, unknown1 = 5, unknown2 = 64, is_end = True, part_num = 1,
             datalen = 984, data = replicate 984 0x41 @ replicate 32 0\<rparr>]"
    by (simp add: make_commands_def HEADER_SIZE_def make_commands_loop.simps body_fst_snd
        slice_from_def slice_to_def zero_bytes_def)
qed

theorem make_commands_count_witness:
  "[1, 2, 3 :: byte] \<noteq> [] \<and> (8 :: int) < 10 \<and>
   make_commands [1, 2, 3] 2 10 = Some [\<lparr>opcode = 2, unknown1 = 5, unknown2 = 64, is_end = False, part_num = 0,
             datalen = 2, data = [1, 2]\<rparr>, \<lparr>opcode = 2, unknown1 = 5, unknown2 = 64, is_end = True, part_num = 1,
             datalen = 1, data = [3, 0]\<rparr>] \<and>
   int (length [\<lparr>opcode = 2, unknown1 = 5, unknown2 = 64, is_end = False, part_num = 0,
             datalen = 2, data = [1, 2]\<rparr>, \<lparr>opcode = 2, unknown1 = 5, unknown2 = 64, is_end = True, part_num = 1,
             datalen = 1, data = [3, 0]\<rparr>]) = \<lceil>real (length [1, 2, 3 :: byte]) / real_of_int (10 - 8)\<rceil> \<and>
   map part_num [\<lparr>opcode = 2, unknown1 = 5, unknown2 = 64, is_end = False, part_num = 0,
             datalen = 2, data = [1, 2]\<rparr>, \<lparr>opcode = 2, unknown1 = 5, unknown2 = 64, is_end = True, part_num = 1,
             datalen = 1, data = [3, 0]\<rparr>] = [0, 1] \<and>
   \<not> is_end \<lparr>opcode = 2, unknown1 = 5, unknown2 = 64, is_end = False, part_num = 0,
             datalen = 2, data = [1, 2]\<rparr> \<and>
   is_end \<lparr>opcode = 2, unknown1 = 5, unknown2 = 64, is_end = True, part_num = 1,
             datalen = 1, data = [3, 0]\<rparr>"
proof -
  have pre: "[1, 2, 3 :: byte] \<noteq> [] \<and> (8 :: int) < 10" by simp
  have run: "make_commands [1, 2, 3] 2 10 = Some [\<lparr>opcode = 2, unknown1 = 5, unknown2 = 64, is_end = False, part_num = 0,
             datalen = 2, data = [1, 2]\<rparr>, \<lparr>opcode = 2, unknown1 = 5, unknown2 = 64, is_end = True, part_num = 1,
             datalen = 1, data = [3, 0]\<rparr>]"
    by (simp add: make_commands_def HEADER_SIZE_def make_commands_loop.simps body_fst_snd
        slice_from_def slice_to_def zero_bytes_def)
  from make_commands_count [of "[1, 2, 3]" 10 2] pre obtain cs
    where cs: "make_commands [1, 2, 3] 2 10 = Some cs"
      and len: "int (length cs) = \<lceil>real (length [1, 2, 3 :: byte]) / real_of_int (10 - 8)\<rceil>"
      and nums: "map part_num cs = map int [0..<length cs]"
      and fin: "\<forall>i<length cs. is_end (cs ! i) \<longleftrightarrow> Suc i = length cs"
    by blast
  from cs run have eq: "cs = [\<lparr>opcode = 2, unknown1 = 5, unknown2 = 64, is_end = False, part_num = 0,
             datalen = 2, data = [1, 2]\<rparr>, \<lparr>opcode = 2, unknown1 = 5, unknown2 = 64, is_end = True, part_num = 1,
             datalen = 1, data = [3, 0]\<rparr>]" by simp
  from fin eq have "\<not> is_end \<lparr>opcode = 2, unknown1 = 5, unknown2 = 64, is_end = False, part_num = 0,
             datalen = 2, data = [1, 2]\<rparr>" and "is_end \<lparr>opcode = 2, unknown1 = 5, unknown2 = 64, is_end = True, part_num = 1,
             datalen = 1, data = [3, 0]\<rparr>" by simp_all
  with pre run len nums eq show ?thesis by simp
qed

theorem make_commands_count_counterexample:
  "make_commands [0x41] 0x02 8 = None \<and>
   make_commands (replicate 2000 0x41) 0x02 1024 \<noteq>
     Some [\<lparr>opcode = 2, unknown1 = 5, unknown2 = 64, is_end = False, part_num = 0,
             datalen = 1016, data = replicate 1016 0x41\<rparr>,
           \<lparr>opcode = 2, unknown1 = 5, unknown2 = 64, is_end = True, part_num = 1,
             datalen = 984, data = replicate 984 0x41 @ replicate 40 0\<rparr>]"
proof
  show "make_commands [0x41] 0x02 8 = None"
    by (simp add: make_commands_def HEADER_SIZE_def loop_diverges)
next
  have "make_commands (replicate 2000 0x41) 0x02 1024 =
     Some [\<lparr>opcode = 2, unknown1 = 5, unknown2 = 64, is_end = False, part_num = 0,
             datalen = 1016, data = replicate 1016 0x41\<rparr>,
           \<lparr>opcode = 2, unknown1 = 5, unknown2 = 64, is_end = True, part_num = 1,
             datalen = 984, data = replicate 984 0x41 @ replicate 32 0\<rparr>]"
    by (simp add: make_commands_def HEADER_SIZE_def make_commands_loop.simps body_fst_snd
        slice_from_def slice_to_def zero_bytes_def)
  then show "make_commands (replicate 2000 0x41) 0x02 1024 \<noteq>
     Some [\<lparr>opcode = 2, unknown1 = 5, unknown2 = 64, is_end = False, part_num = 0,
             datalen = 1016, data = replicate 1016 0x41\<rparr>,
           \<lparr>opcode = 2, unknown1 = 5, unknown2 = 64, is_end = True, part_num = 1,
             datalen = 984, data = replicate 984 0x41 @ replicate 40 0\<rparr>]"
    by simp
qed

text \<open>
  C3, as amended. For every CorsairCommand whose fields lie in the ranges its
  declaration documents (\<open>opcode\<close> in 0..255, \<open>unknown1 = 0x05\<close>, \<open>unknown2 = 0x40\<close>,
  \<open>part_num\<close> and \<open>datalen\<close> in 0..0xffff) and whose data block is \<open>S - 8\<close> bytes long,
  \<^verbatim>\<open>to_bytes()\<close> returns exactly \<open>S\<close> bytes: byte 0 is the opcode, byte 1 is 0x05,
  byte 2 is 0x40, byte 3 is 0x01 if \<open>is_end\<close> and 0x00 otherwise, bytes 4-5 are
  \<open>part_num\<close> and bytes 6-7 are \<open>datalen\<close>, both as 16-bit little-endian, and bytes 8
  onwards are the data block. With the default packet size 1024 and an opcode in
  0..255, every packet that \<^verbatim>\<open>make_commands\<close> produces from a payload of at most
  65536 * 1016 bytes serialises to 1024 bytes. (Outside these ranges \<^verbatim>\<open>to_bytes()\<close>
  raises instead of returning bytes.)
\<close>

theorem to_bytes_layout:
  "(0 \<le> opcode c \<and> opcode c < 256 \<and> unknown1 c = 0x05 \<and> unknown2 c = 0x40 \<and>
    0 \<le> part_num c \<and> part_num c < 65536 \<and> 0 \<le> datalen c \<and> datalen c < 65536 \<and>
    int (length (data c)) = S - 8 \<longrightarrow>
      (\<exists>bs. to_bytes c = Inr bs \<and> int (length bs) = S \<and>
         bs ! 0 = word_of_int (opcode c) \<and> bs ! 1 = 0x05 \<and> bs ! 2 = 0x40 \<and>
         bs ! 3 = (if is_end c then 0x01 else 0x00) \<and>
         uint (bs ! 4) + 256 * uint (bs ! 5) = part_num c \<and>
         uint (bs ! 6) + 256 * uint (bs ! 7) = datalen c \<and>
         drop 8 bs = data c)) \<and>
   (0 \<le> opc \<and> opc < 256 \<and> length P \<le> 65536 * 1016 \<longrightarrow>
      (\<exists>cs. make_commands P opc 1024 = Some cs \<and>
         list_all (\<lambda>c. \<exists>bs. to_bytes c = Inr bs \<and> length bs = 1024) cs))"
proof (intro conjI impI)
  assume "0 \<le> opcode c \<and> opcode c < 256 \<and> unknown1 c = 0x05 \<and> unknown2 c = 0x40 \<and>
    0 \<le> part_num c \<and> part_num c < 65536 \<and> 0 \<le> datalen c \<and> datalen c < 65536 \<and>
    int (length (data c)) = S - 8"
  then show "(\<exists>bs. to_bytes c = Inr bs \<and> int (length bs) = S \<and>
         bs ! 0 = word_of_int (opcode c) \<and> bs ! 1 = 0x05 \<and> bs ! 2 = 0x40 \<and>
         bs ! 3 = (if is_end c then 0x01 else 0x00) \<and>
         uint (bs ! 4) + 256 * uint (bs ! 5) = part_num c \<and>
         uint (bs ! 6) + 256 * uint (bs ! 7) = datalen c \<and>
         drop 8 bs = data c)"
    by (intro to_bytes_layout_general) simp_all
next
  assume "0 \<le> opc \<and> opc < 256 \<and> length P \<le> 65536 * 1016"
  then show "(\<exists>cs. make_commands P opc 1024 = Some cs \<and>
         list_all (\<lambda>c. \<exists>bs. to_bytes c = Inr bs \<and> length bs = 1024) cs)"
    by (intro make_commands_serialized) simp_all
qed

theorem to_bytes_layout_witness:
  "to_bytes \<lparr>opcode = 2, unknown1 = 5, unknown2 = 64, is_end = True, part_num = 1,
       datalen = 1, data = [3, 0]\<rparr> = Inr [2, 5, 64, 1, 1, 0, 1, 0, 3, 0] \<and>
   int (length [2, 5, 64, 1, 1, 0, 1, 0, 3, 0 :: byte]) = 10 \<and>
   make_commands [1, 2, 3] 2 1024 = Some [\<lparr>opcode = 2, unknown1 = 5, unknown2 = 64, is_end = True, part_num = 0,
       datalen = 3, data = [1, 2, 3] @ replicate 1013 0\<rparr>] \<and>
   (\<exists>bs. to_bytes \<lparr>opcode = 2, unknown1 = 5, unknown2 = 64, is_end = True, part_num = 0,
       datalen = 3, data = [1, 2, 3] @ replicate 1013 0\<rparr> = Inr bs \<and> length bs = 1024)"
proof -
  let ?c = "\<lparr>opcode = 2, unknown1 = 5, unknown2 = 64, is_end = True, part_num = 1,
       datalen = 1, data = [3, 0]\<rparr>"
  have pre: "0 \<le> opcode ?c \<and> opcode ?c < 256 \<and> unknown1 ?c = 0x05 \<and> unknown2 ?c = 0x40 \<and>
    0 \<le> part_num ?c \<and> part_num ?c < 65536 \<and> 0 \<le> datalen ?c \<and> datalen ?c < 65536 \<and>
    int (length (data ?c)) = 10 - 8"
    by simp
  have pre': "(0 :: int) \<le> 2 \<and> (2 :: int) < 256 \<and> length [1, 2, 3 :: byte] \<le> 65536 * 1016"
    by simp
  have ev: "to_bytes ?c = Inr [2, 5, 64, 1, 1, 0, 1, 0, 3, 0]"
    by (simp add: to_bytes_def byte_of_int_def int_to_bytes2_le_def)
  have run: "make_commands [1, 2, 3] 2 1024 = Some [\<lparr>opcode = 2, unknown1 = 5, unknown2 = 64, is_end = True, part_num = 0,
       datalen = 3, data = [1, 2, 3] @ replicate 1013 0\<rparr>]"
    by (simp add: make_commands_def HEADER_SIZE_def make_commands_loop.simps body_fst_snd
        slice_from_def slice_to_def zero_bytes_def)
  note inst = to_bytes_layout [of ?c 10 2 "[1, 2, 3]"]
  from inst pre obtain bs where "to_bytes ?c = Inr bs" and "int (length bs) = 10"
    by blast
  with ev have len: "int (length [2, 5, 64, 1, 1, 0, 1, 0, 3, 0 :: byte]) = 10" by simp
  from inst pre' obtain cs where "make_commands [1, 2, 3] 2 1024 = Some cs"
    and "list_all (\<lambda>c. \<exists>bs. to_bytes c = Inr bs \<and> length bs = 1024) cs"
    by blast
  with run have "\<exists>bs. to_bytes \<lparr>opcode = 2, unknown1 = 5, unknown2 = 64, is_end = True, part_num = 0,
       datalen = 3, data = [1, 2, 3] @ replicate 1013 0\<rparr> = Inr bs \<and> length bs = 1024"
    by simp
  with ev len run show ?thesis by simp
qed

theorem to_bytes_layout_counterexample:
  "int (length (data \<lparr>opcode = 2, unknown1 = 5, unknown2 = 64, is_end = False,
      part_num = 65536, datalen = 1016, data = replicate 1016 0\<rparr>)) = 1024 - 8 \<and>
   to_bytes \<lparr>opcode = 2, unknown1 = 5, unknown2 = 64, is_end = False,
      part_num = 65536, datalen = 1016, data = replicate 1016 0\<rparr> = Inl OverflowError"
  by (simp add: to_bytes_def byte_of_int_def int_to_bytes2_le_def)

text \<open>
  C7. For every payload and every packet size, no packet that \<^verbatim>\<open>make_commands\<close>
  yields has a \<open>datalen\<close> above \<open>S - 8\<close>, and every packet that is followed by another
  has \<open>datalen\<close> equal to \<open>S - 8\<close>. This holds of the first \<open>n\<close> packets for every \<open>n\<close>
  (so also where the generator never stops) and of the whole sequence where it stops.
\<close>

theorem make_commands_datalen:
  "(\<forall>n. datalen_ok S (make_commands_first n P opc S)) \<and>
   (\<forall>cs. make_commands P opc S = Some cs \<longrightarrow> datalen_ok S cs)"
proof (intro conjI allI impI)
  fix n show "datalen_ok S (make_commands_first n P opc S)"
    unfolding make_commands_first_def by (rule upto_datalen_ok)
next
  fix cs assume "make_commands P opc S = Some cs"
  then have "cs = make_commands_first (length P) P opc S" by (rule make_commands_Some_first)
  then show "datalen_ok S cs"
    unfolding make_commands_first_def by (simp add: upto_datalen_ok)
qed

theorem make_commands_datalen_witness:
  "make_commands [1, 2, 3] 2 10 = Some [\<lparr>opcode = 2, unknown1 = 5, unknown2 = 64, is_end = False, part_num = 0,
             datalen = 2, data = [1, 2]\<rparr>, \<lparr>opcode = 2, unknown1 = 5, unknown2 = 64, is_end = True, part_num = 1,
             datalen = 1, data = [3, 0]\<rparr>] \<and>
   datalen_ok 10 [\<lparr>opcode = 2, unknown1 = 5, unknown2 = 64, is_end = False, part_num = 0,
             datalen = 2, data = [1, 2]\<rparr>, \<lparr>opcode = 2, unknown1 = 5, unknown2 = 64, is_end = True, part_num = 1,
             datalen = 1, data = [3, 0]\<rparr>]"
proof -
  have run: "make_commands [1, 2, 3] 2 10 = Some [\<lparr>opcode = 2, unknown1 = 5, unknown2 = 64, is_end = False, part_num = 0,
             datalen = 2, data = [1, 2]\<rparr>, \<lparr>opcode = 2, unknown1 = 5, unknown2 = 64, is_end = True, part_num = 1,
             datalen = 1, data = [3, 0]\<rparr>]"
    by (simp add: make_commands_def HEADER_SIZE_def make_commands_loop.simps body_fst_snd
        slice_from_def slice_to_def zero_bytes_def)
  with make_commands_datalen [of 10 "[1, 2, 3]" 2] have "datalen_ok 10 [\<lparr>opcode = 2, unknown1 = 5, unknown2 = 64, is_end = False, part_num = 0,
             datalen = 2, data = [1, 2]\<rparr>, \<lparr>opcode = 2, unknown1 = 5, unknown2 = 64, is_end = True, part_num = 1,
             datalen = 1, data = [3, 0]\<rparr>]"
    by blast
  with run show ?thesis by simp
qed

text \<open>
  C9. For every packet size, \<^verbatim>\<open>make_commands\<close> called with an empty payload yields
  no packet at all: the generator stops at once.
\<close>

theorem make_commands_empty:
  "make_commands [] opc max_len = Some []"
  by (simp add: make_commands_def make_commands_loop.simps)

section \<open>Properties of the LED controller\<close>

subsection \<open>Auxiliary facts\<close>

lemma fold_update_length:
  "length (fold (\<lambda>i xs. xs[i := g i (xs ! i)]) [0..<n] xs) = length xs"
  by (induction n) simp_all

lemma fold_update_nth:
  "n \<le> length xs \<Longrightarrow>
   fold (\<lambda>i xs. xs[i := g i (xs ! i)]) [0..<n] xs ! j =
     (if j < n then g j (xs ! j) else xs ! j)"
proof (induction n)
  case 0
  then show ?case by simp
next
  case (Suc n)
  then have "n < length (fold (\<lambda>i xs. xs[i := g i (xs ! i)]) [0..<n] xs)"
    by (simp add: fold_update_length)
  with Suc show ?case by (auto simp: nth_list_update)
qed

lemma led_update_alt:
  "led_update qt img w h sf satf =
     (\<lambda>i xs. xs[i := (\<lambda>i c. smooth sf c (sampled_color qt img w h satf i)) i (xs ! i)])"
  by (simp add: fun_eq_iff led_update_def)

lemma tick_length:
  "length (fold (led_update qt img w h sf satf) [0..<n] colors) = length colors"
  unfolding led_update_alt by (rule fold_update_length)

lemma tick_nth:
  assumes "n \<le> length colors"
  shows "fold (led_update qt img w h sf satf) [0..<n] colors ! j =
     (if j < n then smooth sf (colors ! j) (sampled_color qt img w h satf j) else colors ! j)"
  unfolding led_update_alt using assms by (rule fold_update_nth)

lemma analyze_nth:
  assumes "enabled st" "length (last_rgb_colors st) = 24" "i < 24"
  shows "last_rgb_colors (analyze_and_set_colors qt img w h sf satf st) ! i =
     smooth sf (last_rgb_colors st ! i) (sampled_color qt img w h satf i)"
  using assms by (simp add: analyze_and_set_colors_def tick_nth)

lemma analyze_length:
  "length (last_rgb_colors (analyze_and_set_colors qt img w h sf satf st)) =
     length (last_rgb_colors st)"
  by (simp add: analyze_and_set_colors_def tick_length)

lemma analyze_enabled:
  "enabled (analyze_and_set_colors qt img w h sf satf st) = enabled st"
  by (simp add: analyze_and_set_colors_def)

lemma grey_sampled:
  "sampled_color grey_ops grey_frame w h satf i = \<lparr>red = 3, green = 3, blue = 3\<rparr>"
  by (simp add: sampled_color_def grey_ops_def split: prod.splits)

lemma py_int_bounds:
  assumes "0 \<le> x" "x \<le> real_of_int n"
  shows "0 \<le> py_int x \<and> py_int x \<le> n"
  using assms by (simp add: py_int_def floor_le_iff)

lemma round_half_even_error: "\<bar>real_of_int (round_half_even y) - y\<bar> \<le> 1 / 2"
  unfolding round_half_even_def Let_def by (auto simp: abs_le_iff)

lemma round_half_even_nonneg: "0 \<le> y \<Longrightarrow> 0 \<le> round_half_even y"
  unfolding round_half_even_def Let_def by auto

lemma round_half_even_of_int [simp]: "round_half_even (of_int k) = k"
  unfolding round_half_even_def Let_def by simp

lemma float_round_0 [simp]: "float_round 0 = 0"
  by (simp add: float_round_def)

lemma float_round_nonneg: "0 \<le> x \<Longrightarrow> 0 \<le> float_round x"
  by (simp add: float_round_def round_half_even_nonneg)

lemma float_round_error:
  "\<bar>float_round x - x\<bar> \<le> 2 powr real_of_int (double_exponent x - 52) / 2"
proof (cases "x = 0")
  case True
  then show ?thesis by simp
next
  case False
  define u where "u = 2 powr real_of_int (double_exponent x - 52)"
  define r where "r = real_of_int (round_half_even (x / u))"
  have u: "0 < u" by (simp add: u_def)
  have fr: "float_round x = r * u"
    using False by (simp add: float_round_def u_def r_def)
  have "\<bar>r - x / u\<bar> \<le> 1 / 2"
    unfolding r_def by (rule round_half_even_error)
  then have "\<bar>r - x / u\<bar> * u \<le> 1 / 2 * u"
    using u by (intro mult_right_mono) simp_all
  moreover have "\<bar>r - x / u\<bar> * u = \<bar>(r - x / u) * u\<bar>"
    using u by (simp add: abs_mult)
  moreover have "(r - x / u) * u = r * u - x"
    using u by (simp add: left_diff_distrib)
  ultimately have "\<bar>r * u - x\<bar> \<le> u / 2" by simp
  then show ?thesis unfolding fr u_def .
qed

lemma double_exponent_le:
  assumes "x \<noteq> 0" "\<bar>x\<bar> < 2 ^ n"
  shows "double_exponent x < int n"
proof -
  from assms have "log 2 \<bar>x\<bar> < real n"
    by (simp add: log_less_iff powr_realpow)
  then have "\<lfloor>log 2 \<bar>x\<bar>\<rfloor> < int n" by (simp add: floor_less_iff)
  then show ?thesis by (simp add: double_exponent_def)
qed

lemma float_round_error_small:
  assumes "\<bar>x\<bar> < 512"
  shows "\<bar>float_round x - x\<bar> \<le> 1 / 2 ^ 45"
proof (cases "x = 0")
  case True
  then show ?thesis by simp
next
  case False
  with assms have "double_exponent x < int 9"
    by (intro double_exponent_le) simp_all
  then have "real_of_int (double_exponent x - 52) \<le> - 44" by simp
  then have "2 powr real_of_int (double_exponent x - 52) \<le> 2 powr (- 44)"
    by (intro powr_mono) simp_all
  also have "\<dots> = 1 / 2 ^ 44"
    by (simp add: powr_minus_divide powr_numeral flip: powr_realpow)
  finally have "2 powr real_of_int (double_exponent x - 52) / 2 \<le> 1 / 2 ^ 45" by simp
  with float_round_error[of x] show ?thesis by linarith
qed

lemma float_round_exact:
  assumes "x / 2 powr real_of_int (double_exponent x - 52) = real_of_int K"
  shows "float_round x = x"
proof (cases "x = 0")
  case True
  then show ?thesis by simp
next
  case False
  have "0 < 2 powr real_of_int (double_exponent x - 52)" by simp
  with assms have "x = real_of_int K * 2 powr real_of_int (double_exponent x - 52)"
    by (simp add: field_simps)
  with False assms show ?thesis by (simp add: float_round_def)
qed

lemma float_round_quarters:
  assumes "x = real_of_int k / 4" "\<bar>x\<bar> < 2 ^ 50"
  shows "float_round x = x"
proof (cases "x = 0")
  case True
  then show ?thesis by simp
next
  case False
  with assms(2) have "double_exponent x < int 50" by (intro double_exponent_le) simp_all
  then obtain n where n: "50 - double_exponent x = int n"
    using nonneg_int_cases[of "50 - double_exponent x"] by auto
  have "x / 2 powr real_of_int (double_exponent x - 52) =
      x * 2 powr real_of_int (52 - double_exponent x)"
    by (simp add: powr_diff field_simps)
  also have "real_of_int (52 - double_exponent x) = 2 + real n"
    using n by linarith
  also have "x * 2 powr (2 + real n) = real_of_int (k * 2 ^ n)"
    using assms(1) by (simp add: powr_add powr_realpow)
  finally show ?thesis by (rule float_round_exact)
qed

lemma py_float_exact: "\<bar>n\<bar> < 2 ^ 50 \<Longrightarrow> py_float n = real_of_int n"
proof -
  assume a: "\<bar>n\<bar> < 2 ^ 50"
  have "real_of_int n = real_of_int (4 * n) / 4" by simp
  moreover from a have "\<bar>real_of_int n\<bar> < 2 ^ 50"
    by (metis of_int_abs of_int_less_numeral_power_cancel_iff)
  ultimately show ?thesis unfolding py_float_def by (rule float_round_quarters)
qed

lemma py_float_nonneg: "0 \<le> n \<Longrightarrow> 0 \<le> py_float n"
  by (simp add: py_float_def float_round_nonneg)

lemma sample_x_range:
  assumes "0 \<le> radius" "2 * radius \<le> width"
  shows "0 \<le> sample_x width radius angle \<and> sample_x width radius angle \<le> width"
proof -
  have c: "- 1 \<le> cos angle" "cos angle \<le> 1" by simp_all
  from assms(1) c have "real_of_int radius * (- 1) \<le> real_of_int radius * cos angle"
    "real_of_int radius * cos angle \<le> real_of_int radius * 1"
    by (intro mult_left_mono; simp)+
  moreover from assms(2) have "real_of_int radius \<le> real_of_int width / 2" by simp
  ultimately have "0 \<le> real_of_int width / 2 + real_of_int radius * cos angle"
    "real_of_int width / 2 + real_of_int radius * cos angle \<le> real_of_int width"
    by linarith+
  then have "0 \<le> py_int (real_of_int width / 2 + real_of_int radius * cos angle) \<and>
     py_int (real_of_int width / 2 + real_of_int radius * cos angle) \<le> width"
    by (rule py_int_bounds)
  then show ?thesis by (simp add: sample_x_def)
qed


lemma sample_y_range:
  assumes "0 \<le> radius" "2 * radius \<le> height"
  shows "0 \<le> sample_y height radius angle \<and> sample_y height radius angle \<le> height"
proof -
  have c: "- 1 \<le> sin angle" "sin angle \<le> 1" by simp_all
  from assms(1) c have "real_of_int radius * (- 1) \<le> real_of_int radius * sin angle"
    "real_of_int radius * sin angle \<le> real_of_int radius * 1"
    by (intro mult_left_mono; simp)+
  moreover from assms(2) have "real_of_int radius \<le> real_of_int height / 2" by simp
  ultimately have "0 \<le> real_of_int height / 2 + real_of_int radius * sin angle"
    "real_of_int height / 2 + real_of_int radius * sin angle \<le> real_of_int height"
    by linarith+
  then have "0 \<le> py_int (real_of_int height / 2 + real_of_int radius * sin angle) \<and>
     py_int (real_of_int height / 2 + real_of_int radius * sin angle) \<le> height"
    by (rule py_int_bounds)
  then show ?thesis by (simp add: sample_y_def)
qed

lemma sample_point_range:
  assumes "0 \<le> width" "0 \<le> height"
  shows "case sample_point width height i of
           (x, y) \<Rightarrow> 0 \<le> x \<and> x \<le> width \<and> 0 \<le> y \<and> y \<le> height"
proof -
  let ?r = "min width height div 2"
  from assms have r: "0 \<le> ?r" "2 * ?r \<le> width" "2 * ?r \<le> height" by (auto simp: min_def)
  from sample_x_range[OF r(1,2)] sample_y_range[OF r(1,3)]
  show ?thesis by (simp add: sample_point_def Let_def)
qed

lemma connect_first_fails:
  "backend 0 = None \<Longrightarrow>
   connect_to_openrgb backend =
     (backend 1, [Connect, Warning, Sleep 5, Connect] @ (if backend 1 = None then [Sleep 5] else []))"
  by (simp add: connect_to_openrgb_def split: option.splits)

lemma connect_attempts_le_2:
  "length (filter (\<lambda>e. e = Connect) (snd (connect_to_openrgb backend))) \<le> 2"
  by (simp add: connect_to_openrgb_def split: option.splits)

lemma init_disabled:
  "backend 0 = None \<Longrightarrow> backend 1 = None \<Longrightarrow>
   fst (LEDController_init backend) = \<lparr>enabled = False, client = None, last_rgb_colors = []\<rparr>"
  by (simp add: LEDController_init_def connect_first_fails)

lemma step_disabled:
  assumes "\<not> enabled st" "client st = None"
  shows "\<not> enabled (fst (controller_step qt op st)) \<and> client (fst (controller_step qt op st)) = None \<and>
     snd (controller_step qt op st) = []"
  using assms
  by (cases op) (simp_all add: analyze_and_set_colors_def set_colors_def stop_led_def)

lemma run_ops_disabled:
  "\<not> enabled st \<Longrightarrow> client st = None \<Longrightarrow>
   \<not> enabled (fst (run_ops qt ops st)) \<and> snd (run_ops qt ops st) = []"
proof (induction ops arbitrary: st)
  case Nil
  then show ?case by simp
next
  case (Cons op ops)
  from step_disabled[OF Cons.prems, of qt op]
  have s: "\<not> enabled (fst (controller_step qt op st))"
    "client (fst (controller_step qt op st)) = None"
    "snd (controller_step qt op st) = []" by simp_all
  from Cons.IH[OF s(1,2)] s(3) show ?case
    by (cases "controller_step qt op st";
        cases "run_ops qt ops (fst (controller_step qt op st))") simp
qed

lemma boost_saturation_range:
  assumes "0 \<le> s" "0 \<le> saturation_factor"
  shows "0 \<le> boost_saturation saturation_factor s \<and> boost_saturation saturation_factor s \<le> 255"
proof -
  from assms have "0 \<le> py_float s * saturation_factor"
    by (simp add: py_float_nonneg)
  then have "0 \<le> float_round (py_float s * saturation_factor)"
    by (rule float_round_nonneg)
  then have "0 \<le> py_int (float_round (py_float s * saturation_factor))"
    by (simp add: py_int_def)
  then show ?thesis by (simp add: boost_saturation_def)
qed

lemma float_round_upper:
  assumes "0 \<le> x" "x < 512"
  shows "float_round x \<le> x + 1 / 2 ^ 45"
proof -
  from assms have "\<bar>x\<bar> < 512" by simp
  then have "\<bar>float_round x - x\<bar> \<le> 1 / 2 ^ 45" by (rule float_round_error_small)
  then show ?thesis by (simp only: abs_le_iff) linarith
qed

lemma float_round_quarters_small:
  assumes "x = real_of_int k / 4" "0 \<le> x" "x \<le> 1024"
  shows "float_round x = x"
proof -
  have "(1024 :: real) < 2 ^ 50" by simp
  with assms(2,3) have "\<bar>x\<bar> < 2 ^ 50" by linarith
  with assms(1) show ?thesis by (rule float_round_quarters)
qed

lemma smooth_channel_range:
  assumes "0 \<le> sf" "sf \<le> 1" "0 \<le> a" "a \<le> 255" "0 \<le> b" "b \<le> 255"
  shows "0 \<le> smooth_channel sf a b \<and> smooth_channel sf a b \<le> 255"
proof -
  define d :: real where "d = 1 / 2 ^ 45"
  define m where "m = float_round (1 - sf)"
  define p where "p = float_round (py_float a * m)"
  define q where "q = float_round (py_float b * sf)"
  have d: "0 < d" "258 * d < 1" by (simp_all add: d_def)
  have up: "float_round x \<le> x + d" if "0 \<le> x" "x < 512" for x
    unfolding d_def using that by (rule float_round_upper)
  from assms have fa: "py_float a = real_of_int a" and fb: "py_float b = real_of_int b"
    by (simp_all add: py_float_exact)
  from assms have ra: "0 \<le> real_of_int a" "real_of_int a \<le> 255"
    and rb: "0 \<le> real_of_int b" "real_of_int b \<le> 255" by simp_all
  from assms have s: "0 \<le> 1 - sf" "1 - sf < 512" by simp_all
  from s have m: "0 \<le> m" "m \<le> 1 - sf + d"
    unfolding m_def by (simp_all add: float_round_nonneg up)
  from ra m have am: "0 \<le> real_of_int a * m" by simp
  from ra m have "real_of_int a * m \<le> real_of_int a * (1 - sf + d)"
    by (intro mult_left_mono) simp_all
  also have "\<dots> = real_of_int a * (1 - sf) + real_of_int a * d"
    by (simp add: algebra_simps)
  also from ra s d have "\<dots> \<le> 255 * (1 - sf) + 255 * d"
    by (intro add_mono mult_right_mono) simp_all
  finally have am': "real_of_int a * m \<le> 255 * (1 - sf) + 255 * d" .
  have "255 * (1 - sf) + 255 * d \<le> 255 + 255 * d" using assms(1) by simp
  with am' have am'': "real_of_int a * m \<le> 255 + 255 * d" by (rule order_trans)
  moreover from d have "255 + 255 * d < 512" by linarith
  ultimately have "real_of_int a * m < 512" by (rule le_less_trans)
  with am have p: "0 \<le> p" "p \<le> real_of_int a * m + d"
    unfolding p_def fa by (simp_all add: float_round_nonneg up)
  from rb assms have bs: "0 \<le> real_of_int b * sf" by simp
  from rb assms have bs': "real_of_int b * sf \<le> 255 * sf"
    by (intro mult_right_mono) simp_all
  moreover have "255 * sf < 512" using assms(2) by simp
  ultimately have "real_of_int b * sf < 512" by (rule le_less_trans)
  with bs have q: "0 \<le> q" "q \<le> real_of_int b * sf + d"
    unfolding q_def fb by (simp_all add: float_round_nonneg up)
  from p q have "0 \<le> p + q" by simp
  moreover from p q have "p + q \<le> (real_of_int a * m + real_of_int b * sf) + 2 * d" by simp
  moreover from am' bs' have "real_of_int a * m + real_of_int b * sf \<le> 255 + 255 * d"
    by simp
  ultimately have pq: "0 \<le> p + q" "p + q \<le> 255 + 257 * d" by simp_all
  with d have "p + q < 512" by linarith
  with pq have "0 \<le> float_round (p + q)" "float_round (p + q) \<le> p + q + d"
    by (simp_all add: float_round_nonneg up)
  with pq d have r: "0 \<le> float_round (p + q)" "float_round (p + q) < 256" by linarith+
  then have "0 \<le> py_int (float_round (p + q))" "py_int (float_round (p + q)) \<le> 255"
    by (simp_all add: py_int_def floor_le_iff)
  then show ?thesis by (simp add: smooth_channel_def p_def q_def m_def)
qed

lemma smooth_channel_default:
  assumes "0 \<le> a" "a \<le> 255" "0 \<le> b" "b \<le> 255"
  shows "smooth_channel 0.25 a b = py_int (real_of_int a * (1 - 0.25) + real_of_int b * 0.25)"
proof -
  from assms have fa: "py_float a = real_of_int a" and fb: "py_float b = real_of_int b"
    by (simp_all add: py_float_exact)
  from assms have ra: "0 \<le> real_of_int a" "real_of_int a \<le> 255"
    and rb: "0 \<le> real_of_int b" "real_of_int b \<le> 255" by simp_all
  have "float_round (3 / 4) = 3 / 4"
    by (rule float_round_quarters_small[of _ 3]) simp_all
  then have m: "float_round (1 - 0.25) = 3 / 4" by simp
  have "float_round (real_of_int a * (3 / 4)) = real_of_int a * (3 / 4)"
  proof (rule float_round_quarters_small[of _ "3 * a"])
    show "real_of_int a * (3 / 4) = real_of_int (3 * a) / 4" by simp
    from ra show "0 \<le> real_of_int a * (3 / 4)" "real_of_int a * (3 / 4) \<le> 1024" by simp_all
  qed
  then have p: "float_round (py_float a * float_round (1 - 0.25)) = real_of_int a * (3 / 4)"
    by (simp only: fa m)
  have "float_round (real_of_int b * (1 / 4)) = real_of_int b * (1 / 4)"
  proof (rule float_round_quarters_small[of _ b])
    show "real_of_int b * (1 / 4) = real_of_int b / 4" by simp
    from rb show "0 \<le> real_of_int b * (1 / 4)" "real_of_int b * (1 / 4) \<le> 1024" by simp_all
  qed
  moreover have "(0.25 :: real) = 1 / 4" by simp
  ultimately have q: "float_round (py_float b * 0.25) = real_of_int b * (1 / 4)"
    by (simp only: fb)
  have r: "float_round (real_of_int a * (3 / 4) + real_of_int b * (1 / 4)) =
      real_of_int a * (3 / 4) + real_of_int b * (1 / 4)"
  proof (rule float_round_quarters_small[of _ "3 * a + b"])
    show "real_of_int a * (3 / 4) + real_of_int b * (1 / 4) = real_of_int (3 * a + b) / 4"
      by simp
    from ra rb show "0 \<le> real_of_int a * (3 / 4) + real_of_int b * (1 / 4)"
      "real_of_int a * (3 / 4) + real_of_int b * (1 / 4) \<le> 1024" by simp_all
  qed
  have "smooth_channel 0.25 a b =
      py_int (real_of_int a * (3 / 4) + real_of_int b * (1 / 4))"
    unfolding smooth_channel_def by (simp only: p q r)
  also have "real_of_int a * (3 / 4) + real_of_int b * (1 / 4) =
      real_of_int a * (1 - 0.25) + real_of_int b * 0.25" by simp
  finally show ?thesis .
qed

text \<open>
  Off the default factor the rounding shows. At the float nearest to 0.3, which is
  \<open>5404319552844595 / 2 ^ 54\<close>, the blend of 3 and 3 comes out just below 3 and 2 is
  stored.
\<close>

lemma double_exponent_eq:
  assumes "2 powr real_of_int e \<le> \<bar>x\<bar>" "\<bar>x\<bar> < 2 powr real_of_int (e + 1)" "- 1022 \<le> e"
  shows "double_exponent x = e"
proof -
  have "(0 :: real) < 2 powr real_of_int e" by simp
  with assms(1) have pos: "0 < \<bar>x\<bar>" by linarith
  from assms(1) pos have "real_of_int e \<le> log 2 \<bar>x\<bar>" by (simp add: le_log_iff)
  moreover from assms(2) pos have "log 2 \<bar>x\<bar> < real_of_int e + 1"
    by (simp add: log_less_iff add.commute)
  ultimately have "\<lfloor>log 2 \<bar>x\<bar>\<rfloor> = e" by (simp add: floor_eq_iff)
  with assms(3) show ?thesis by (simp add: double_exponent_def)
qed

lemma float_round_at:
  assumes "2 powr real_of_int e \<le> \<bar>x\<bar>" "\<bar>x\<bar> < 2 powr real_of_int (e + 1)" "- 1022 \<le> e"
  shows "float_round x =
     real_of_int (round_half_even (x / 2 powr real_of_int (e - 52))) * 2 powr real_of_int (e - 52)"
proof -
  from assms have "double_exponent x = e" by (rule double_exponent_eq)
  moreover have "(0 :: real) < 2 powr real_of_int e" by simp
  with assms(1) have "x \<noteq> 0" by auto
  ultimately show ?thesis by (simp add: float_round_def)
qed

lemma float_round_in_binade:
  assumes "lo \<le> \<bar>x\<bar>" "\<bar>x\<bar> < 2 * lo" "- 1022 \<le> e"
    and "lo = 2 powr real_of_int e" "u = 2 powr real_of_int (e - 52)"
  shows "float_round x = real_of_int (round_half_even (x / u)) * u"
proof -
  have "2 powr real_of_int (e + 1) = 2 * lo"
    by (simp add: assms(4) powr_add)
  with assms show ?thesis by (simp add: float_round_at)
qed

lemma float_round_seven_tenths: "float_round (1 - 5404319552844595 / 2 ^ 54) = 6305039478318694 / 2 ^ 53"
proof -
  have "float_round (1 - 5404319552844595 / 2 ^ 54) =
      real_of_int (round_half_even ((1 - 5404319552844595 / 2 ^ 54) / (1 / 2 ^ 53))) * (1 / 2 ^ 53)"
    by (rule float_round_in_binade[where e = "- 1" and lo = "1 / 2"])
      (simp_all add: powr_minus_divide flip: powr_realpow)
  also have "round_half_even ((1 - 5404319552844595 / 2 ^ 54) / (1 / 2 ^ 53)) = 6305039478318694"
    by (simp add: round_half_even_def Let_def)
  finally show ?thesis by simp
qed


lemma smooth_channel_near_three_tenths:
  "smooth_channel (5404319552844595 / 2 ^ 54) 3 3 = 2"
proof -
  have f3: "py_float 3 = 3" using py_float_exact[of 3] by simp
  have m: "float_round (1 - 5404319552844595 / 2 ^ 54) = 6305039478318694 / 2 ^ 53"
    by (rule float_round_seven_tenths)
  have "float_round (3 * (6305039478318694 / 2 ^ 53)) =
      real_of_int (round_half_even (3 * (6305039478318694 / 2 ^ 53) / (1 / 2 ^ 51))) * (1 / 2 ^ 51)"
    by (rule float_round_in_binade[where e = 1 and lo = 2])
      (simp_all add: powr_minus_divide flip: powr_realpow)
  also have "round_half_even (3 * (6305039478318694 / 2 ^ 53) / (1 / 2 ^ 51)) = 4728779608739020"
    by (simp add: round_half_even_def Let_def)
  finally have p: "float_round (3 * (6305039478318694 / 2 ^ 53)) = 4728779608739020 / 2 ^ 51"
    by simp
  have "float_round (3 * (5404319552844595 / 2 ^ 54)) =
      real_of_int (round_half_even (3 * (5404319552844595 / 2 ^ 54) / (1 / 2 ^ 53))) * (1 / 2 ^ 53)"
    by (rule float_round_in_binade[where e = "- 1" and lo = "1 / 2"])
      (simp_all add: powr_minus_divide flip: powr_realpow)
  also have "round_half_even (3 * (5404319552844595 / 2 ^ 54) / (1 / 2 ^ 53)) = 8106479329266892"
    by (simp add: round_half_even_def Let_def)
  finally have q: "float_round (3 * (5404319552844595 / 2 ^ 54)) = 8106479329266892 / 2 ^ 53"
    by simp
  have "float_round (4728779608739020 / 2 ^ 51 + 8106479329266892 / 2 ^ 53) =
      real_of_int (round_half_even
        ((4728779608739020 / 2 ^ 51 + 8106479329266892 / 2 ^ 53) / (1 / 2 ^ 51))) * (1 / 2 ^ 51)"
    by (rule float_round_in_binade[where e = 1 and lo = 2])
      (simp_all add: powr_minus_divide flip: powr_realpow)
  also have "round_half_even
      ((4728779608739020 / 2 ^ 51 + 8106479329266892 / 2 ^ 53) / (1 / 2 ^ 51)) = 6755399441055743"
    by (simp add: round_half_even_def Let_def)
  finally have r: "float_round (4728779608739020 / 2 ^ 51 + 8106479329266892 / 2 ^ 53) =
      6755399441055743 / 2 ^ 51"
    by simp
  have "smooth_channel (5404319552844595 / 2 ^ 54) 3 3 = py_int (6755399441055743 / 2 ^ 51)"
    unfolding smooth_channel_def by (simp only: f3 m p q r)
  also have "\<dots> = 2" by (simp add: py_int_def)
  finally show ?thesis .
qed

lemma boost_240: "boost_saturation 1.25 240 = 255"
proof -
  have "py_float 240 = 240" using py_float_exact[of 240] by simp
  moreover have "float_round (240 * 1.25) = 240 * 1.25"
    by (rule float_round_quarters_small[of _ 1200]) simp_all
  ultimately show ?thesis by (simp add: boost_saturation_def py_int_def)
qed

lemma red_ops_documented: "qt_documented red_ops"
proof -
  have "valid_rgb \<lparr>red = v, green = v - v * s div 255, blue = v - v * s div 255\<rparr>"
    if "0 \<le> s" "s \<le> 255" "0 \<le> v" "v \<le> 255" for s v :: int
  proof -
    from that have "v * s \<le> v * 255" by (intro mult_left_mono) simp_all
    then have "v * s div 255 \<le> v * 255 div 255" by (rule zdiv_mono1) simp
    then have "v * s div 255 \<le> v" by simp
    moreover from that have "0 \<le> v * s div 255"
      by (simp add: pos_imp_zdiv_nonneg_iff)
    ultimately show ?thesis using that by (simp add: valid_rgb_def)
  qed
  then show ?thesis by (simp add: qt_documented_def red_ops_def)
qed

lemma doc_hsv:
  assumes "qt_documented qt" "toHsv qt px = (hh, s, v)"
  shows "- 1 \<le> hh \<and> hh \<le> 359 \<and> 0 \<le> s \<and> s \<le> 255 \<and> 0 \<le> v \<and> v \<le> 255"
proof -
  from assms(1) have "\<forall>px. case toHsv qt px of
      (h, s, v) \<Rightarrow> - 1 \<le> h \<and> h \<le> 359 \<and> 0 \<le> s \<and> s \<le> 255 \<and> 0 \<le> v \<and> v \<le> 255"
    unfolding qt_documented_def by (rule conjunct1)
  then have "case toHsv qt px of
      (h, s, v) \<Rightarrow> - 1 \<le> h \<and> h \<le> 359 \<and> 0 \<le> s \<and> s \<le> 255 \<and> 0 \<le> v \<and> v \<le> 255" ..
  with assms(2) show ?thesis by simp
qed

lemma doc_rgb:
  assumes "qt_documented qt" "- 1 \<le> hh" "0 \<le> s" "s \<le> 255" "0 \<le> v" "v \<le> 255"
  shows "valid_rgb (fromHsv qt (hh, s, v))"
proof -
  from assms(1) have "\<forall>h s v. - 1 \<le> h \<and> 0 \<le> s \<and> s \<le> 255 \<and> 0 \<le> v \<and> v \<le> 255 \<longrightarrow>
        valid_rgb (fromHsv qt (h, s, v))"
    unfolding qt_documented_def by (rule conjunct2)
  with assms(2-) show ?thesis by simp
qed

lemma red_sampled:
  "sampled_color red_ops img w h satf i =
     \<lparr>red = 200, green = 200 - 200 * boost_saturation satf 240 div 255,
      blue = 200 - 200 * boost_saturation satf 240 div 255\<rparr>"
  by (simp add: sampled_color_def red_ops_def split: prod.splits)

lemma smooth_valid:
  assumes "0 \<le> sf" "sf \<le> 1" "valid_rgb a" "valid_rgb b"
  shows "valid_rgb (smooth sf a b)"
  using assms smooth_channel_range[of sf "red a" "red b"]
    smooth_channel_range[of sf "green a" "green b"]
    smooth_channel_range[of sf "blue a" "blue b"]
  by (simp add: valid_rgb_def smooth_def)

lemma analyze_colors_ok:
  assumes "0 \<le> sf" "sf \<le> 1" "frame_in_range qt w h satf img" "colors_ok st"
  shows "colors_ok (analyze_and_set_colors qt img w h sf satf st)"
proof (cases "enabled st")
  case False
  with assms(4) show ?thesis by (simp add: analyze_and_set_colors_def)
next
  case True
  from assms(4) have len: "length (last_rgb_colors st) = 24"
    and old: "\<And>i. i < 24 \<Longrightarrow> valid_rgb (last_rgb_colors st ! i)"
    by (simp_all add: colors_ok_def list_all_length)
  from assms(3) have new: "\<And>i. i < 24 \<Longrightarrow> valid_rgb (sampled_color qt img w h satf i)"
    by (simp add: frame_in_range_def list_all_iff)
  have "valid_rgb (last_rgb_colors (analyze_and_set_colors qt img w h sf satf st) ! i)"
    if "i < 24" for i
    using that True len assms(1,2) old new by (simp add: analyze_nth smooth_valid)
  with len show ?thesis
    by (simp add: colors_ok_def list_all_length analyze_length)
qed

lemma run_ticks_colors_ok:
  "0 \<le> sf \<Longrightarrow> sf \<le> 1 \<Longrightarrow> list_all (frame_in_range qt w h satf) frames \<Longrightarrow>
   colors_ok st \<Longrightarrow> colors_ok (run_ticks qt w h sf satf frames st)"
proof (induction frames arbitrary: st)
  case Nil
  then show ?case by simp
next
  case (Cons img frames)
  from Cons.prems have "colors_ok (analyze_and_set_colors qt img w h sf satf st)"
    by (intro analyze_colors_ok) simp_all
  with Cons show ?case by simp
qed

lemma seed_ok: "colors_ok \<lparr>enabled = True, client = Some cl, last_rgb_colors = replicate 24 black\<rparr>"
  by (simp add: colors_ok_def black_def valid_rgb_def list_all_length)

subsection \<open>The claims\<close>

text \<open>
  C4, as amended. On every smoothing tick of an enabled controller with the default
  smoothing factor 0.25, for every LED index \<open>i\<close> in 0..23 and every RGB channel whose
  previous and sampled values lie in 0..255, the new persisted colour is
  \<open>int(prevColor[i] * (1 - 0.25) + sampledColor[i] * 0.25)\<close>: the fraction is cut off
  (towards zero), the value is not rounded to the nearest integer. (At this factor the
  float arithmetic is exact; at other factors each operation rounds before the cut.)
  The persisted value is seeded to black (0, 0, 0) for all 24 LEDs when the constructor
  has obtained a session.
\<close>

theorem smoothing_update:
  "(enabled st \<and> length (last_rgb_colors st) = 24 \<and> i < 24 \<and>
    valid_rgb (last_rgb_colors st ! i) \<and> valid_rgb (sampled_color qt img w h satf i) \<longrightarrow>
      (let old = last_rgb_colors st ! i;
           new = last_rgb_colors (analyze_and_set_colors qt img w h 0.25 satf st) ! i;
           sampled = sampled_color qt img w h satf i
       in red new =
            py_int (real_of_int (red old) * (1 - 0.25) + real_of_int (red sampled) * 0.25) \<and>
          green new =
            py_int (real_of_int (green old) * (1 - 0.25) + real_of_int (green sampled) * 0.25) \<and>
          blue new =
            py_int (real_of_int (blue old) * (1 - 0.25) + real_of_int (blue sampled) * 0.25))) \<and>
   (fst (connect_to_openrgb backend) \<noteq> None \<longrightarrow>
      last_rgb_colors (fst (LEDController_init backend)) =
        replicate 24 \<lparr>red = 0, green = 0, blue = 0\<rparr>)"
proof (intro conjI impI)
  assume a: "enabled st \<and> length (last_rgb_colors st) = 24 \<and> i < 24 \<and>
    valid_rgb (last_rgb_colors st ! i) \<and> valid_rgb (sampled_color qt img w h satf i)"
  then have new: "last_rgb_colors (analyze_and_set_colors qt img w h 0.25 satf st) ! i =
      smooth 0.25 (last_rgb_colors st ! i) (sampled_color qt img w h satf i)"
    by (simp add: analyze_nth)
  from a have
    "smooth_channel 0.25 (red (last_rgb_colors st ! i)) (red (sampled_color qt img w h satf i)) =
       py_int (real_of_int (red (last_rgb_colors st ! i)) * (1 - 0.25) +
               real_of_int (red (sampled_color qt img w h satf i)) * 0.25)"
    "smooth_channel 0.25 (green (last_rgb_colors st ! i))
         (green (sampled_color qt img w h satf i)) =
       py_int (real_of_int (green (last_rgb_colors st ! i)) * (1 - 0.25) +
               real_of_int (green (sampled_color qt img w h satf i)) * 0.25)"
    "smooth_channel 0.25 (blue (last_rgb_colors st ! i))
         (blue (sampled_color qt img w h satf i)) =
       py_int (real_of_int (blue (last_rgb_colors st ! i)) * (1 - 0.25) +
               real_of_int (blue (sampled_color qt img w h satf i)) * 0.25)"
    by (intro smooth_channel_default; simp add: valid_rgb_def)+
  then show "(let old = last_rgb_colors st ! i;
           new = last_rgb_colors (analyze_and_set_colors qt img w h 0.25 satf st) ! i;
           sampled = sampled_color qt img w h satf i
       in red new =
            py_int (real_of_int (red old) * (1 - 0.25) + real_of_int (red sampled) * 0.25) \<and>
          green new =
            py_int (real_of_int (green old) * (1 - 0.25) + real_of_int (green sampled) * 0.25) \<and>
          blue new =
            py_int (real_of_int (blue old) * (1 - 0.25) + real_of_int (blue sampled) * 0.25))"
    unfolding Let_def new smooth_def by simp
next
  assume "fst (connect_to_openrgb backend) \<noteq> None"
  then show "last_rgb_colors (fst (LEDController_init backend)) =
        replicate 24 \<lparr>red = 0, green = 0, blue = 0\<rparr>"
    by (cases "connect_to_openrgb backend")
      (auto simp: LEDController_init_def black_def split: option.splits)
qed

theorem smoothing_update_witness:
  "enabled connected \<and> length (last_rgb_colors connected) = 24 \<and> (0 :: nat) < 24 \<and>
   valid_rgb (last_rgb_colors connected ! 0) \<and>
   valid_rgb (sampled_color grey_ops grey_frame 479 479 1.25 0) \<and>
   sampled_color grey_ops grey_frame 479 479 1.25 0 = \<lparr>red = 3, green = 3, blue = 3\<rparr> \<and>
   red (last_rgb_colors
          (analyze_and_set_colors grey_ops grey_frame 479 479 0.25 1.25 connected) ! 0) = 0 \<and>
   fst (connect_to_openrgb (\<lambda>n. Some [])) \<noteq> None \<and>
   last_rgb_colors (fst (LEDController_init (\<lambda>n. Some []))) =
     replicate 24 \<lparr>red = 0, green = 0, blue = 0\<rparr>"
proof -
  have pre: "enabled connected \<and> length (last_rgb_colors connected) = 24 \<and> (0 :: nat) < 24 \<and>
      valid_rgb (last_rgb_colors connected ! 0) \<and>
      valid_rgb (sampled_color grey_ops grey_frame 479 479 1.25 0)"
    by (simp add: connected_def grey_sampled valid_rgb_def black_def)
  have s: "sampled_color grey_ops grey_frame 479 479 1.25 0 = \<lparr>red = 3, green = 3, blue = 3\<rparr>"
    by (rule grey_sampled)
  have con: "fst (connect_to_openrgb (\<lambda>n. Some [])) \<noteq> None"
    by (simp add: connect_to_openrgb_def)
  note inst = smoothing_update [of connected 0 grey_ops grey_frame 479 479 "1.25" "\<lambda>n. Some []"]
  from inst pre have "red (last_rgb_colors
      (analyze_and_set_colors grey_ops grey_frame 479 479 0.25 1.25 connected) ! 0) =
    py_int (real_of_int (red (last_rgb_colors connected ! 0)) * (1 - 0.25) +
      real_of_int (red (sampled_color grey_ops grey_frame 479 479 1.25 0)) * 0.25)"
    by (simp add: Let_def)
  also have "\<dots> = 0"
    by (simp add: grey_sampled connected_def black_def py_int_def)
  finally have r: "red (last_rgb_colors
      (analyze_and_set_colors grey_ops grey_frame 479 479 0.25 1.25 connected) ! 0) = 0" .
  from inst con have "last_rgb_colors (fst (LEDController_init (\<lambda>n. Some []))) =
     replicate 24 \<lparr>red = 0, green = 0, blue = 0\<rparr>"
    by blast
  with pre s r con show ?thesis by blast
qed

theorem smoothing_update_counterexample:
  "red (last_rgb_colors connected ! 0) = 0 \<and>
   red (sampled_color grey_ops grey_frame 479 479 1.25 0) = 3 \<and>
   red (last_rgb_colors
          (analyze_and_set_colors grey_ops grey_frame 479 479 0.25 1.25 connected) ! 0) = 0 \<and>
   round (real_of_int (red (last_rgb_colors connected ! 0)) * (1 - 0.25) +
          real_of_int (red (sampled_color grey_ops grey_frame 479 479 1.25 0)) * 0.25) = 1"
proof -
  have c: "enabled connected" "length (last_rgb_colors connected) = 24"
    "last_rgb_colors connected ! 0 = black"
    by (simp_all add: connected_def)
  have "smooth_channel 0.25 0 3 = py_int (real_of_int 0 * (1 - 0.25) + real_of_int 3 * 0.25)"
    by (rule smooth_channel_default) simp_all
  then have "smooth_channel 0.25 0 3 = 0" by (simp add: py_int_def)
  with c have "red (last_rgb_colors
          (analyze_and_set_colors grey_ops grey_frame 479 479 0.25 1.25 connected) ! 0) = 0"
    by (simp add: analyze_nth grey_sampled smooth_def black_def)
  moreover have "round (real_of_int (red (last_rgb_colors connected ! 0)) * (1 - 0.25) +
          real_of_int (red (sampled_color grey_ops grey_frame 479 479 1.25 0)) * 0.25) = 1"
    using c by (simp add: grey_sampled black_def round_def)
  ultimately show ?thesis using c by (simp add: grey_sampled black_def)
qed

text \<open>
  C5. With the default \<open>width = height = 479\<close>, for every LED index \<open>i\<close> in 0..23 the
  coordinates used for the pixel lookup satisfy \<open>0 \<le> x < 480\<close> and \<open>0 \<le> y < 480\<close>, the
  bounds of a 480 by 480 frame. (The code has no clamping step; the geometry keeps the
  point inside.)
\<close>

theorem sample_point_in_frame:
  "i < 24 \<longrightarrow>
     (case sample_point 479 479 i of
        (x, y) \<Rightarrow> 0 \<le> x \<and> x < 480 \<and> 0 \<le> y \<and> y < 480)"
  using sample_point_range [of 479 479 i] by (auto split: prod.splits)

theorem sample_point_in_frame_witness:
  "(11 :: nat) < 24 \<and> sample_point 479 479 11 = (479, 239) \<and>
   (case sample_point 479 479 11 of
      (x, y) \<Rightarrow> 0 \<le> x \<and> x < 480 \<and> 0 \<le> y \<and> y < 480)"
proof -
  have a: "(11 :: nat) < 24" by simp
  have b: "sample_point 479 479 11 = (479, 239)"
    by (simp add: sample_point_def sample_x_def sample_y_def led_angle_def py_int_def)
  from sample_point_in_frame [of 11] a
  have c: "case sample_point 479 479 11 of
      (x, y) \<Rightarrow> 0 \<le> x \<and> x < 480 \<and> 0 \<le> y \<and> y < 480"
    by (rule mp)
  from a b c show ?thesis by (intro conjI)
qed

text \<open>
  C6. If the first attempt to open a session fails, \<^verbatim>\<open>connect_to_openrgb\<close> warns,
  sleeps 5 seconds and makes exactly one more attempt, whose outcome it returns; it
  never makes more than two attempts. If both attempts fail, the constructor leaves
  the controller disabled, and after any sequence of ticks, \<^verbatim>\<open>set_colors\<close> calls and
  \<^verbatim>\<open>stop_led\<close> calls it is still disabled and no write has reached the backend.
\<close>

theorem connect_retry_then_disabled:
  "(backend 0 = None \<longrightarrow>
      connect_to_openrgb backend =
        (backend 1,
         [Connect, Warning, Sleep 5, Connect] @ (if backend 1 = None then [Sleep 5] else []))) \<and>
   length (filter (\<lambda>e. e = Connect) (snd (connect_to_openrgb backend))) \<le> 2 \<and>
   (backend 0 = None \<and> backend 1 = None \<longrightarrow>
      \<not> enabled (fst (LEDController_init backend)) \<and>
      set_colors (fst (LEDController_init backend)) = [] \<and>
      \<not> enabled (fst (run_ops qt ops (fst (LEDController_init backend)))) \<and>
      snd (run_ops qt ops (fst (LEDController_init backend))) = [])"
proof (intro conjI impI)
  assume "backend 0 = None"
  then show "connect_to_openrgb backend =
        (backend 1,
         [Connect, Warning, Sleep 5, Connect] @ (if backend 1 = None then [Sleep 5] else []))"
    by (rule connect_first_fails)
next
  show "length (filter (\<lambda>e. e = Connect) (snd (connect_to_openrgb backend))) \<le> 2"
    by (rule connect_attempts_le_2)
next
  assume a: "backend 0 = None \<and> backend 1 = None"
  then have init: "fst (LEDController_init backend) =
      \<lparr>enabled = False, client = None, last_rgb_colors = []\<rparr>"
    by (simp add: init_disabled)
  show "\<not> enabled (fst (LEDController_init backend))"
    by (simp add: init)
  show "set_colors (fst (LEDController_init backend)) = []"
    by (simp add: init set_colors_def)
  have "\<not> enabled (fst (run_ops qt ops (fst (LEDController_init backend)))) \<and>
      snd (run_ops qt ops (fst (LEDController_init backend))) = []"
    by (rule run_ops_disabled) (simp_all add: init)
  then show "\<not> enabled (fst (run_ops qt ops (fst (LEDController_init backend))))"
    and "snd (run_ops qt ops (fst (LEDController_init backend))) = []"
    by simp_all
qed

theorem connect_retry_then_disabled_witness:
  "(\<lambda>n :: nat. None :: OpenRGBClient option) 0 = None \<and>
   (\<lambda>n :: nat. None :: OpenRGBClient option) 1 = None \<and>
   connect_to_openrgb (\<lambda>n. None) = (None, [Connect, Warning, Sleep 5, Connect, Sleep 5]) \<and>
   fst (LEDController_init (\<lambda>n. None)) =
     \<lparr>enabled = False, client = None, last_rgb_colors = []\<rparr> \<and>
   \<not> enabled (fst (run_ops grey_ops [Tick grey_frame, SetColors, StopLed, Tick grey_frame]
                    (fst (LEDController_init (\<lambda>n. None))))) \<and>
   snd (run_ops grey_ops [Tick grey_frame, SetColors, StopLed, Tick grey_frame]
          (fst (LEDController_init (\<lambda>n. None)))) = []"
proof -
  let ?b = "\<lambda>n :: nat. None :: OpenRGBClient option"
  have pre: "?b 0 = None" "?b 1 = None" by simp_all
  note inst = connect_retry_then_disabled
    [of ?b grey_ops "[Tick grey_frame, SetColors, StopLed, Tick grey_frame]"]
  from inst pre have "connect_to_openrgb ?b =
      (?b 1, [Connect, Warning, Sleep 5, Connect] @ (if ?b 1 = None then [Sleep 5] else []))"
    by blast
  then have trace: "connect_to_openrgb ?b = (None, [Connect, Warning, Sleep 5, Connect, Sleep 5])"
    by simp
  have init: "fst (LEDController_init ?b) =
      \<lparr>enabled = False, client = None, last_rgb_colors = []\<rparr>"
    by (simp add: LEDController_init_def trace)
  from inst pre
  have run: "\<not> enabled (fst (run_ops grey_ops [Tick grey_frame, SetColors, StopLed, Tick grey_frame]
                    (fst (LEDController_init ?b))))"
    "snd (run_ops grey_ops [Tick grey_frame, SetColors, StopLed, Tick grey_frame]
          (fst (LEDController_init ?b))) = []"
    by blast+
  from pre trace init run show ?thesis by (intro conjI)
qed

text \<open>
  C8. With the default saturation factor 1.25 and conversions that keep to the ranges
  Qt documents, the colour that the saturation boost produces for any pixel of any
  frame (multiply the saturation by the factor, clamp it to 255, convert back to RGB)
  has every channel in 0..255.
\<close>

theorem saturation_boost_in_range:
  "qt_documented qt \<longrightarrow> valid_rgb (sampled_color qt img w h 1.25 i)"
proof
  assume qt: "qt_documented qt"
  obtain x y where xy: "sample_point w h i = (x, y)" by (cases "sample_point w h i")
  obtain hh s v where hsv: "toHsv qt (img x y) = (hh, s, v)"
    by (cases "toHsv qt (img x y)")
  from doc_hsv[OF qt hsv] have r: "- 1 \<le> hh" "0 \<le> s" "0 \<le> v" "v \<le> 255" by simp_all
  from r(2) have b: "0 \<le> boost_saturation 1.25 s \<and> boost_saturation 1.25 s \<le> 255"
    by (rule boost_saturation_range) simp
  from qt r(1) b r(3,4) have "valid_rgb (fromHsv qt (hh, boost_saturation 1.25 s, v))"
    by (intro doc_rgb) simp_all
  with xy hsv show "valid_rgb (sampled_color qt img w h 1.25 i)"
    by (simp only: sampled_color_def prod.case)
qed

theorem saturation_boost_in_range_witness:
  "qt_documented red_ops \<and>
   boost_saturation 1.25 240 = 255 \<and>
   sampled_color red_ops grey_frame 479 479 1.25 0 = \<lparr>red = 200, green = 0, blue = 0\<rparr> \<and>
   valid_rgb (sampled_color red_ops grey_frame 479 479 1.25 0)"
proof -
  have doc: "qt_documented red_ops"
    by (rule red_ops_documented)
  have b: "boost_saturation 1.25 240 = 255"
    by (rule boost_240)
  have s: "sampled_color red_ops grey_frame 479 479 1.25 0 = \<lparr>red = 200, green = 0, blue = 0\<rparr>"
    by (simp only: red_sampled boost_240) simp
  from saturation_boost_in_range [of red_ops grey_frame 479 479 0] doc
  have v: "valid_rgb (sampled_color red_ops grey_frame 479 479 1.25 0)"
    by (rule mp)
  from doc b s v show ?thesis by (intro conjI)
qed

text \<open>
  C10. Starting from the all-black seed, after every run of smoothing ticks each channel
  of each of the 24 persisted colours is an integer in 0..255, provided the smoothing
  factor lies in [0, 1] and the colours sampled from every frame have their channels in
  0..255.
\<close>

theorem smoothing_keeps_rgb_range:
  "0 \<le> sf \<and> sf \<le> 1 \<and> list_all (frame_in_range qt w h satf) frames \<longrightarrow>
     colors_ok
       (run_ticks qt w h sf satf frames
          \<lparr>enabled = True, client = Some cl, last_rgb_colors = replicate 24 black\<rparr>)"
proof
  assume "0 \<le> sf \<and> sf \<le> 1 \<and> list_all (frame_in_range qt w h satf) frames"
  then show "colors_ok
       (run_ticks qt w h sf satf frames
          \<lparr>enabled = True, client = Some cl, last_rgb_colors = replicate 24 black\<rparr>)"
    by (intro run_ticks_colors_ok seed_ok) simp_all
qed

theorem smoothing_keeps_rgb_range_witness:
  "(0 :: real) \<le> 0.25 \<and> (0.25 :: real) \<le> 1 \<and>
   list_all (frame_in_range grey_ops 479 479 1.25) [grey_frame, grey_frame] \<and>
   colors_ok (run_ticks grey_ops 479 479 0.25 1.25 [grey_frame, grey_frame] connected)"
proof -
  have a: "(0 :: real) \<le> 0.25 \<and> (0.25 :: real) \<le> 1" by simp
  have b: "list_all (frame_in_range grey_ops 479 479 1.25) [grey_frame, grey_frame]"
    by (simp add: frame_in_range_def list_all_iff grey_sampled valid_rgb_def)
  from smoothing_keeps_rgb_range
    [of "0.25" grey_ops 479 479 "1.25" "[grey_frame, grey_frame]" "[]"] a b
  have "colors_ok (run_ticks grey_ops 479 479 0.25 1.25 [grey_frame, grey_frame] connected)"
    unfolding connected_def by blast
  with a b show ?thesis by (intro conjI) simp_all
qed

end
